theory Spec2Isabelle
  imports Main "HOL-Library.Word"
begin

unbundle bit_operations_syntax

section \<open>Intel HEX reading and writing (ihex.c)\<close>

text \<open>
  The C types: \<open>unsigned int\<close> and \<open>int\<close> are 32-bit words (an \<open>int\<close> compared with an
  \<open>unsigned int\<close> is converted to unsigned, so \<open>-1\<close> is \<open>0xFFFFFFFF\<close>), \<open>unsigned char\<close>
  is an 8-bit word. A buffer \<open>unsigned char *buf\<close> is the memory behind the pointer,
  indexed by the \<open>unsigned int\<close> the code indexes it with. A text file is its
  characters.
\<close>

type_synonym u8 = "8 word"
type_synonym u32 = "32 word"
type_synonym mem = "u32 \<Rightarrow> u8"

subsection \<open>The macros HI and LO, and checksum\<close>

definition HI :: "u32 \<Rightarrow> u32" where
  "HI x = drop_bit 8 (x AND 0xff00)"

definition LO :: "u32 \<Rightarrow> u32" where
  "LO x = x AND 0xff"

text \<open>
  \<open>checksum(buf, length, chunk_len, chunk_addr, chunk_type)\<close>: the list \<open>bs\<close> is
  \<open>buf[0]\<close>, ..., \<open>buf[length - 1]\<close>, the bytes the loop adds up.
\<close>

definition checksum :: "u8 list \<Rightarrow> u32 \<Rightarrow> u32 \<Rightarrow> u32 \<Rightarrow> u8" where
  "checksum bs chunk_len chunk_addr chunk_type =
     (let sum0 = chunk_len + LO chunk_addr + HI chunk_addr + chunk_type;
          sum = fold (\<lambda>b s. s + ucast b) bs sum0;
          complement = NOT sum + 1
      in ucast (complement AND 0xff))"

subsection \<open>fprintf with the formats %02X and %04X\<close>

definition hexchar :: "nat \<Rightarrow> char" where
  "hexchar d = ''0123456789ABCDEF'' ! d"

fun hex_digits :: "nat \<Rightarrow> string" where
  "hex_digits n = (if n < 16 then [hexchar n] else hex_digits (n div 16) @ [hexchar (n mod 16)])"

declare hex_digits.simps [simp del]

text \<open>\<open>%0wX\<close>: upper-case hexadecimal, padded with zeros to at least \<open>w\<close> characters.\<close>

definition fmt_X :: "nat \<Rightarrow> u32 \<Rightarrow> string" where
  "fmt_X w x = (let ds = hex_digits (unat x) in replicate (w - length ds) (CHR ''0'') @ ds)"

subsection \<open>ihex_write\<close>

text \<open>
  One record is one line of the output: the values the code passes to the \<open>fprintf\<close>
  calls of that line. \<open>Data\<close> keeps \<open>chunk_start\<close> (the line prints
  \<open>chunk_start & 0xffff\<close>).
\<close>

datatype hexrec =
    Ela u32 u8
  | Data u32 u32 "u8 list" u8
  | Eof

fun render :: "hexrec \<Rightarrow> string" where
  "render (Ela cur_ela cks) =
     '':02000004'' @ fmt_X 4 cur_ela @ fmt_X 2 (ucast cks) @ ''\<newline>''"
| "render (Data chunk_len chunk_start bs cks) =
     '':'' @ fmt_X 2 chunk_len @ fmt_X 4 (chunk_start AND 0xffff) @ ''00''
       @ concat (map (\<lambda>b. fmt_X 2 (ucast b)) bs) @ fmt_X 2 (ucast cks) @ ''\<newline>''"
| "render Eof = '':00000001FF\<newline>''"

text \<open>The chunk length of lines 138 to 149.\<close>

definition chunk_len_of :: "u32 \<Rightarrow> u32 \<Rightarrow> u32" where
  "chunk_len_of end chunk_start =
     (let chunk_len = end - chunk_start;
          chunk_len = (if chunk_len > 32 then 32 else chunk_len)
      in if (chunk_start AND 0xffff) + chunk_len > 0xffff
         then 0x10000 - (chunk_start AND 0xffff)
         else chunk_len)"

text \<open>The indices of \<open>for(i = a; i < b; i++)\<close> with \<open>unsigned int i\<close>.\<close>

definition word_upt :: "u32 \<Rightarrow> u32 \<Rightarrow> u32 list" where
  "word_upt a b = map of_nat [unat a ..< unat b]"

text \<open>The bytes \<open>p[0]\<close>, ..., \<open>p[n - 1]\<close> behind the pointer \<open>p = &buf[a]\<close>.\<close>

definition bytes_at :: "mem \<Rightarrow> u32 \<Rightarrow> u32 \<Rightarrow> u8 list" where
  "bytes_at buf a n = map (\<lambda>i. buf (a + of_nat i)) [0 ..< unat n]"

lemma and_ffff_le: "unat ((x::u32) AND 0xffff) \<le> 65535"
  using word_and_le1 [of x "0xffff"] by (simp add: word_le_nat_alt)

lemma unat_chunk_len_of:
  assumes "chunk_start < end"
  shows "unat (chunk_len_of end chunk_start) =
     (let l = min (unat end - unat chunk_start) 32; m = unat (chunk_start AND 0xffff)
      in if m + l > 65535 then 65536 - m else l)"
proof -
  have lt: "unat chunk_start < unat end" using assms by (simp add: word_less_nat_alt)
  have d: "unat (end - chunk_start) = unat end - unat chunk_start"
    using lt by (simp add: unat_sub word_le_nat_alt)
  define l1 :: u32 where "l1 = (if end - chunk_start > 32 then 32 else end - chunk_start)"
  have l1: "unat l1 = min (unat end - unat chunk_start) 32"
    using d by (auto simp: l1_def word_less_nat_alt min_def)
  have m: "unat (chunk_start AND 0xffff) \<le> 65535" by (rule and_ffff_le)
  have s: "unat ((chunk_start AND 0xffff) + l1) = unat (chunk_start AND 0xffff) + unat l1"
    using m l1 by (simp add: unat_word_ariths min_def split: if_splits)
  have t: "unat (0x10000 - (chunk_start AND 0xffff)) = 65536 - unat (chunk_start AND 0xffff)"
    using m by (simp add: unat_sub word_le_nat_alt)
  show ?thesis
    unfolding chunk_len_of_def Let_def l1_def [symmetric]
    using s t l1 by (simp add: word_less_nat_alt)
qed

lemma chunk_len_of_bounds:
  assumes "chunk_start < end"
  shows "0 < unat (chunk_len_of end chunk_start)"
    and "unat chunk_start + unat (chunk_len_of end chunk_start) \<le> unat end"
    and "unat (chunk_len_of end chunk_start) \<le> 32"
    and "unat (chunk_start AND 0xffff) + unat (chunk_len_of end chunk_start) \<le> 65536"
proof -
  have lt: "unat chunk_start < unat end" using assms by (simp add: word_less_nat_alt)
  have m: "unat (chunk_start AND 0xffff) \<le> 65535" by (rule and_ffff_le)
  note u = unat_chunk_len_of [OF assms, unfolded Let_def]
  show "0 < unat (chunk_len_of end chunk_start)"
    unfolding u using lt m by (simp add: min_def; arith)
  show "unat chunk_start + unat (chunk_len_of end chunk_start) \<le> unat end"
    unfolding u using lt m by (simp add: min_def; arith)
  show "unat (chunk_len_of end chunk_start) \<le> 32"
    unfolding u using lt m by (simp add: min_def; arith)
  show "unat (chunk_start AND 0xffff) + unat (chunk_len_of end chunk_start) \<le> 65536"
    unfolding u using lt m by (simp add: min_def; arith)
qed

lemma chunk_advance:
  assumes "chunk_start < end"
  shows "unat (chunk_start + chunk_len_of end chunk_start)
           = unat chunk_start + unat (chunk_len_of end chunk_start)"
proof -
  have "unat chunk_start + unat (chunk_len_of end chunk_start) \<le> unat end"
    by (rule chunk_len_of_bounds(2) [OF assms])
  moreover have "unat end < 2 ^ 32" using unsigned_less [of "end"] by simp
  ultimately show ?thesis by (simp add: unat_word_ariths)
qed

text \<open>
  The while loop of lines 135 to 181. The stream is the text written to it: every
  \<open>fprintf\<close> appends its characters and reports no error, so the branches that
  return -1 after a failed \<open>fprintf\<close> are not taken.
\<close>

function write_loop :: "mem \<Rightarrow> u32 \<Rightarrow> u32 \<Rightarrow> u32 \<Rightarrow> u32 \<Rightarrow> hexrec list" where
  "write_loop buf start end cur_ela chunk_start =
     (if chunk_start < end then
        let chunk_len = chunk_len_of end chunk_start;
            ela = (if cur_ela \<noteq> drop_bit 16 chunk_start
                   then let cur_ela = drop_bit 16 chunk_start
                        in [Ela cur_ela (checksum [ucast (HI cur_ela), ucast (LO cur_ela)] 2 0 4)]
                   else []);
            cur_ela = drop_bit 16 chunk_start;
            dat = Data chunk_len chunk_start
                    (map buf (word_upt (chunk_start - start) (chunk_start + chunk_len - start)))
                    (checksum (bytes_at buf (chunk_start - start) chunk_len) chunk_len chunk_start 0)
        in ela @ dat # write_loop buf start end cur_ela (chunk_start + chunk_len)
      else [])"
  by pat_completeness auto
termination
proof (relation "measure (\<lambda>(buf, start, end, cur_ela, chunk_start). unat end - unat chunk_start)")
  show "wf (measure (\<lambda>(buf, start, end, cur_ela, chunk_start). unat end - unat (chunk_start :: u32)))"
    by simp
next
  fix buf :: mem and start "end" cur_ela chunk_start :: u32
    and x xa xb
  assume lt: "chunk_start < end" and x: "x = chunk_len_of end chunk_start"
  have "unat chunk_start < unat (chunk_start + x)" "unat (chunk_start + x) \<le> unat end"
    using chunk_advance [OF lt] chunk_len_of_bounds(1,2) [OF lt] x by simp_all
  then show "((buf, start, end, xb, chunk_start + x), (buf, start, end, cur_ela, chunk_start))
       \<in> measure (\<lambda>(buf, start, end, cur_ela, chunk_start). unat end - unat chunk_start)"
    by simp
qed

declare write_loop.simps [simp del]

definition ihex_write_records :: "mem \<Rightarrow> u32 \<Rightarrow> u32 \<Rightarrow> hexrec list" where
  "ihex_write_records buf start end =
     (let cur_ela = (if end > 65535 then - 1 else 0)
      in write_loop buf start end cur_ela start @ [Eof])"

text \<open>The text in the file after \<open>ihex_write(pFile, buf, start, end)\<close>, which returns 0.\<close>

definition ihex_write :: "mem \<Rightarrow> u32 \<Rightarrow> u32 \<Rightarrow> string" where
  "ihex_write buf start end = concat (map render (ihex_write_records buf start end))"

subsection \<open>The C library calls of ihex_read: strlen, fgets, sscanf\<close>

definition NUL :: char where
  "NUL = CHR 0x00"

text \<open>
  A \<open>char\<close> array is the list of its elements. The C string at \<open>&line[i]\<close> is what
  stands from index \<open>i\<close> up to the first NUL.
\<close>

definition cstr :: "string \<Rightarrow> nat \<Rightarrow> string" where
  "cstr ln i = takeWhile (\<lambda>c. c \<noteq> NUL) (drop i ln)"

definition strlen :: "string \<Rightarrow> nat" where
  "strlen ln = length (cstr ln 0)"

text \<open>
  \<open>fgets(line, n, pFile)\<close> reads at most \<open>n - 1\<close> characters, stops after a
  newline, and writes a NUL after them; the rest of the array keeps what it held. At
  the end of the file it reads nothing and returns NULL. The result is the array and
  the unread rest of the file.
\<close>

fun read_line :: "nat \<Rightarrow> string \<Rightarrow> string" where
  "read_line 0 s = []"
| "read_line (Suc n) [] = []"
| "read_line (Suc n) (c # cs) = (if c = CHR 0x0A then [c] else c # read_line n cs)"

definition fgets :: "string \<Rightarrow> nat \<Rightarrow> string \<Rightarrow> (string \<times> string) option" where
  "fgets ln n s =
     (if s = [] then None
      else let l = read_line (n - 1) s
           in Some (l @ NUL # drop (Suc (length l)) ln, drop (length l) s))"

text \<open>
  \<open>sscanf\<close> with a conversion \<open>%wx\<close>, as ISO C describes it: white space is skipped,
  then the longest run of at most \<open>w\<close> characters that begins a hexadecimal number
  (an optional sign, an optional \<open>0x\<close> or \<open>0X\<close>, hexadecimal digits) is taken; the
  conversion fails when that run has no digit. A minus sign negates the value in
  \<open>unsigned int\<close>. \<open>scan_x\<close> returns the value and the unread input.
\<close>

definition isspace :: "char \<Rightarrow> bool" where
  "isspace c = (c = CHR '' '' \<or> c = CHR 0x09 \<or> c = CHR 0x0A \<or> c = CHR 0x0B
                \<or> c = CHR 0x0C \<or> c = CHR 0x0D)"

definition xdigit :: "char \<Rightarrow> nat option" where
  "xdigit c =
     (let n = (of_char c :: nat)
      in if 48 \<le> n \<and> n \<le> 57 then Some (n - 48)
         else if 65 \<le> n \<and> n \<le> 70 then Some (n - 55)
         else if 97 \<le> n \<and> n \<le> 102 then Some (n - 87)
         else None)"

definition hexval :: "string \<Rightarrow> u32" where
  "hexval ds = foldl (\<lambda>a c. a * 16 + of_nat (the (xdigit c))) 0 ds"

definition scan_sign :: "nat \<Rightarrow> string \<Rightarrow> bool \<times> nat \<times> string" where
  "scan_sign w s =
     (case s of
        c # cs \<Rightarrow> if (c = CHR ''-'' \<or> c = CHR ''+'') \<and> 0 < w then (c = CHR ''-'', w - 1, cs)
                  else (False, w, s)
      | [] \<Rightarrow> (False, w, s))"

definition scan_prefix :: "nat \<Rightarrow> string \<Rightarrow> nat \<times> string" where
  "scan_prefix w s =
     (case s of
        c # d # cs \<Rightarrow> if c = CHR ''0'' \<and> (d = CHR ''x'' \<or> d = CHR ''X'') \<and> 2 \<le> w
                      then (w - 2, cs) else (w, s)
      | _ \<Rightarrow> (w, s))"

definition scan_x :: "nat \<Rightarrow> string \<Rightarrow> (u32 \<times> string) option" where
  "scan_x w s =
     (let (neg, w2, s2) = scan_sign w (dropWhile isspace s);
          (w3, s3) = scan_prefix w2 s2;
          ds = takeWhile (\<lambda>c. xdigit c \<noteq> None) (take w3 s3)
      in if ds = [] then None
         else Some (if neg then - hexval ds else hexval ds, drop (length ds) s3))"

text \<open>\<open>sscanf(s, "%wx", &v) == 1\<close>, with the value stored.\<close>

definition sscanf_x :: "nat \<Rightarrow> string \<Rightarrow> u32 option" where
  "sscanf_x w s = map_option fst (scan_x w s)"

text \<open>\<open>sscanf(s, ":%02x%04x%02x", &chunk_len, &chunk_addr, &chunk_type) == 3\<close>.\<close>

definition sscanf_header :: "string \<Rightarrow> (u32 \<times> u32 \<times> u32) option" where
  "sscanf_header s =
     (case s of
        [] \<Rightarrow> None
      | c # cs \<Rightarrow>
          if c \<noteq> CHR '':'' then None
          else (case scan_x 2 cs of
                  None \<Rightarrow> None
                | Some (chunk_len, s1) \<Rightarrow>
                    (case scan_x 4 s1 of
                       None \<Rightarrow> None
                     | Some (chunk_addr, s2) \<Rightarrow>
                         (case scan_x 2 s2 of
                            None \<Rightarrow> None
                          | Some (chunk_type, s3) \<Rightarrow> Some (chunk_len, chunk_addr, chunk_type)))))"

subsection \<open>ihex_read\<close>

text \<open>
  The variables of \<open>ihex_read\<close> that live across lines, with the static array \<open>line\<close>
  and the caller's buffer.
\<close>

record rstate =
  line :: string
  line_no :: u32
  greatest_addr :: u32
  offset :: u32
  buf :: mem

text \<open>
  The four messages of \<open>ihex_read\<close>, with the values they print. After each of them the
  function frees the buffer and returns -1: a failed call is \<open>Inl (e, m)\<close>, where \<open>m\<close>
  is what the buffer held when it was freed.
\<close>

datatype error =
    ParseError u32
  | ParseByteError u32 nat
  | AddrRange u32 u32
  | AddrLenRange u32 u32 u32

text \<open>
  The for loop of lines 92 to 120. The index \<open>i\<close> stays below the array's size; it is
  a natural number here, and \<open>(i - 9) / 2\<close> is converted where the code computes with
  it. The loop is reached after the header was read from the line, so the line is not
  empty and \<open>strlen(line) - 1\<close> does not wrap around (lemma \<open>header_line_nonempty\<close>).
\<close>

function data_loop ::
  "u32 \<Rightarrow> u32 \<Rightarrow> u32 \<Rightarrow> u32 \<Rightarrow> u32 \<Rightarrow> nat \<Rightarrow> rstate \<Rightarrow> (error \<times> mem) + rstate" where
  "data_loop start end chunk_len chunk_addr chunk_type i st =
     (if i < strlen (line st) - 1 then
        (case sscanf_x 2 (cstr (line st) i) of
           None \<Rightarrow> Inl (ParseByteError (line_no st) i, buf st)
         | Some byte \<Rightarrow>
             if chunk_type \<noteq> 0 then Inr st
             else if of_nat ((i - 9) div 2) \<ge> chunk_len then Inr st
             else if chunk_addr + offset st < start
               then Inl (AddrRange chunk_addr (line_no st), buf st)
             else if chunk_addr + offset st + chunk_len > end
               then Inl (AddrLenRange chunk_addr chunk_len (line_no st), buf st)
             else
               let st = (if chunk_addr + offset st + chunk_len > greatest_addr st
                         then st\<lparr>greatest_addr := chunk_addr + offset st + chunk_len\<rparr>
                         else st);
                   st = st\<lparr>buf := (buf st)
                          (chunk_addr + offset st - start + of_nat ((i - 9) div 2) := ucast byte)\<rparr>
               in data_loop start end chunk_len chunk_addr chunk_type (i + 2) st)
      else Inr st)"
  by pat_completeness auto
termination
  by (relation "measure (\<lambda>(start, end, chunk_len, chunk_addr, chunk_type, i, st).
                  strlen (line st) - i)") auto

declare data_loop.simps [simp del]

text \<open>
  The body of the while loop, lines 56 to 120, after \<open>fgets\<close> has filled \<open>line\<close>.
  \<open>fgets\<close> has written a NUL, so the index \<open>strlen(line)\<close> of the test for a carriage
  return lies within the array.
\<close>

definition strip_cr :: "rstate \<Rightarrow> rstate" where
  "strip_cr st =
     (if line st ! strlen (line st) = CHR 0x0D
      then st\<lparr>line := (line st)[strlen (line st) := NUL]\<rparr>
      else st)"

definition read_esa :: "u32 \<Rightarrow> rstate \<Rightarrow> (error \<times> mem) + rstate" where
  "read_esa chunk_type st =
     (if chunk_type = 2
      then (case sscanf_x 4 (cstr (line st) 9) of
              None \<Rightarrow> Inl (ParseError (line_no st), buf st)
            | Some esa \<Rightarrow> Inr (st\<lparr>offset := esa * 16\<rparr>))
      else Inr st)"

definition read_ela :: "u32 \<Rightarrow> rstate \<Rightarrow> (error \<times> mem) + rstate" where
  "read_ela chunk_type st =
     (if chunk_type = 4
      then (case sscanf_x 4 (cstr (line st) 9) of
              None \<Rightarrow> Inl (ParseError (line_no st), buf st)
            | Some ela \<Rightarrow> Inr (st\<lparr>offset := ela * 65536\<rparr>))
      else Inr st)"

definition read_body :: "u32 \<Rightarrow> u32 \<Rightarrow> rstate \<Rightarrow> (error \<times> mem) + rstate" where
  "read_body start end st0 =
     (let st = strip_cr (st0\<lparr>line_no := line_no st0 + 1\<rparr>)
      in case sscanf_header (cstr (line st) 0) of
           None \<Rightarrow> Inl (ParseError (line_no st), buf st)
         | Some (chunk_len, chunk_addr, chunk_type) \<Rightarrow>
             (case read_esa chunk_type st of
                Inl e \<Rightarrow> Inl e
              | Inr st \<Rightarrow>
                  (case read_ela chunk_type st of
                     Inl e \<Rightarrow> Inl e
                   | Inr st \<Rightarrow> data_loop start end chunk_len chunk_addr chunk_type 9 st)))"

lemma read_line_nonempty: "s \<noteq> [] \<Longrightarrow> 0 < n \<Longrightarrow> read_line n s \<noteq> []"
  by (cases n; cases s) auto

lemma read_line_length: "length (read_line n s) \<le> length s"
  by (induction n s rule: read_line.induct) auto

text \<open>The while loop of lines 55 to 121 over the unread part of the file.\<close>

function read_loop :: "u32 \<Rightarrow> u32 \<Rightarrow> rstate \<Rightarrow> string \<Rightarrow> (error \<times> mem) + rstate" where
  "read_loop start end st file =
     (case fgets (line st) 523 file of
        None \<Rightarrow> Inr st
      | Some (ln, rest) \<Rightarrow>
          (case read_body start end (st\<lparr>line := ln\<rparr>) of
             Inl e \<Rightarrow> Inl e
           | Inr st' \<Rightarrow> read_loop start end st' rest))"
  by pat_completeness auto
termination
proof (relation "measure (\<lambda>(start, end, st, file). length file)")
  show "wf (measure (\<lambda>(start :: u32, end :: u32, st :: rstate, file :: string). length file))"
    by simp
next
  fix start "end" :: u32 and st st' :: rstate and inp rest ln :: string and x2 e
  assume "fgets (line st) 523 inp = Some x2" and "(ln, rest) = x2"
  then have "inp \<noteq> []" and "rest = drop (length (read_line 522 inp)) inp"
    by (auto simp: fgets_def Let_def split: if_splits)
  moreover have "read_line 522 inp \<noteq> []"
    using \<open>inp \<noteq> []\<close> by (rule read_line_nonempty) simp
  ultimately show "((start, end, st', rest), (start, end, st, inp))
      \<in> measure (\<lambda>(start, end, st, file). length file)"
    by (cases inp) auto
qed

declare read_loop.simps [simp del]

text \<open>
  \<open>ihex_read(pFile, buf, start, end)\<close> on a file with the text \<open>file\<close>, read from its
  beginning (\<open>fseek\<close>); \<open>line\<close> has static storage and starts as zeros. The call
  returns the \<open>int\<close> that \<open>greatest_addr - start\<close> converts to, and leaves the buffer.
\<close>

definition ihex_read :: "string \<Rightarrow> mem \<Rightarrow> u32 \<Rightarrow> u32 \<Rightarrow> (error \<times> mem) + (int \<times> mem)" where
  "ihex_read file buf0 start end =
     (case read_loop start end
             \<lparr>line = replicate 523 NUL, line_no = 0, greatest_addr = 0, offset = 0, buf = buf0\<rparr>
             file of
        Inl e \<Rightarrow> Inl e
      | Inr st \<Rightarrow> Inr (sint (greatest_addr st - start), buf st))"

subsection \<open>Reading a result off\<close>

text \<open>A buffer that holds the bytes \<open>bs\<close>, and zeros after them.\<close>

definition mem_of :: "u8 list \<Rightarrow> mem" where
  "mem_of bs = (\<lambda>i. if unat i < length bs then bs ! unat i else 0)"

text \<open>What a call of \<open>ihex_read\<close> shows: the message, or the \<open>int\<close> and the first \<open>n\<close> bytes.\<close>

definition outcome :: "(error \<times> mem) + (int \<times> mem) \<Rightarrow> u32 \<Rightarrow> error + (int \<times> u8 list)" where
  "outcome r n =
     (case r of Inl (e, m) \<Rightarrow> Inl e | Inr (k, m) \<Rightarrow> Inr (k, map m (word_upt 0 n)))"

text \<open>The same, with the bytes at the indices \<open>is\<close>.\<close>

definition outcome_at ::
  "(error \<times> mem) + (int \<times> mem) \<Rightarrow> u32 list \<Rightarrow> error + (int \<times> u8 list)" where
  "outcome_at r is = (case r of Inl (e, m) \<Rightarrow> Inl e | Inr (k, m) \<Rightarrow> Inr (k, map m is))"

subsection \<open>Lines and their fields\<close>

text \<open>The \<open>k\<close> lowest hexadecimal digits of \<open>n\<close>, the most significant first.\<close>

fun hexn :: "nat \<Rightarrow> nat \<Rightarrow> string" where
  "hexn 0 n = []"
| "hexn (Suc k) n = hexn k (n div 16) @ [hexchar (n mod 16)]"

text \<open>A string of hexadecimal digits, in either case.\<close>

definition xdigits :: "string \<Rightarrow> bool" where
  "xdigits ds = list_all (\<lambda>c. xdigit c \<noteq> None) ds"

text \<open>The values of the pairs of digits of a string, in order.\<close>

fun pair_bytes :: "string \<Rightarrow> u32 list" where
  "pair_bytes (a # b # cs) = hexval [a, b] # pair_bytes cs"
| "pair_bytes _ = []"

text \<open>The buffer after the bytes \<open>bs\<close> are stored at \<open>base + j\<close>, \<open>base + j + 1\<close>, ...\<close>

fun store_bytes :: "mem \<Rightarrow> u32 \<Rightarrow> nat \<Rightarrow> u32 list \<Rightarrow> mem" where
  "store_bytes m base j [] = m"
| "store_bytes m base j (b # bs) = store_bytes (m(base + of_nat j := ucast b)) base (Suc j) bs"

text \<open>
  A line of a text as its fields: the digits of the length, of the address and of the
  type, the digits of the data, and the digits of the checksum. \<open>line_text\<close> is the
  line, with its colon and its newline.
\<close>

datatype hexline = HexLine (f_len: string) (f_addr: string) (f_type: string) (f_data: string) (f_cks: string)

definition line_text :: "hexline \<Rightarrow> string" where
  "line_text h = CHR '':'' # f_len h @ f_addr h @ f_type h @ f_data h @ f_cks h @ [CHR 0x0A]"

text \<open>
  A record as section 6 of the specification lays it out: \<open>:LLAAAATT\<close>, then \<open>LL\<close>
  data bytes of two digits, then a checksum of two digits.
\<close>

definition wf_line :: "hexline \<Rightarrow> bool" where
  "wf_line h \<longleftrightarrow>
     xdigits (f_len h) \<and> length (f_len h) = 2 \<and>
     xdigits (f_addr h) \<and> length (f_addr h) = 4 \<and>
     xdigits (f_type h) \<and> length (f_type h) = 2 \<and>
     xdigits (f_data h) \<and> length (f_data h) = 2 * unat (hexval (f_len h)) \<and>
     xdigits (f_cks h) \<and> length (f_cks h) = 2"

text \<open>A record of type 02 or 04 has at least the two data bytes that \<open>ihex_read\<close> reads from it.\<close>

definition ext_ok :: "hexline \<Rightarrow> bool" where
  "ext_ok h \<longleftrightarrow> (hexval (f_type h) = 2 \<or> hexval (f_type h) = 4 \<longrightarrow> 2 \<le> unat (hexval (f_len h)))"

text \<open>
  What the loop body does with such a line, in terms of the values of its fields
  (lemma \<open>read_body_wf\<close> below).
\<close>

definition line_effect :: "u32 \<Rightarrow> u32 \<Rightarrow> hexline \<Rightarrow> rstate \<Rightarrow> (error \<times> mem) + rstate" where
  "line_effect start end h st0 =
     (let chunk_len = hexval (f_len h); chunk_addr = hexval (f_addr h);
          chunk_type = hexval (f_type h); ext = hexval (take 4 (f_data h));
          st = st0\<lparr>line_no := line_no st0 + 1\<rparr>;
          st = (if chunk_type = 2 then st\<lparr>offset := ext * 16\<rparr>
                else if chunk_type = 4 then st\<lparr>offset := ext * 65536\<rparr> else st)
      in if chunk_type \<noteq> 0 \<or> chunk_len = 0 then Inr st
         else if chunk_addr + offset st < start
           then Inl (AddrRange chunk_addr (line_no st), buf st)
         else if chunk_addr + offset st + chunk_len > end
           then Inl (AddrLenRange chunk_addr chunk_len (line_no st), buf st)
         else Inr (st\<lparr>greatest_addr := max (greatest_addr st) (chunk_addr + offset st + chunk_len),
                       buf := store_bytes (buf st) (chunk_addr + offset st - start) 0
                                (pair_bytes (f_data h))\<rparr>))"

text \<open>Two lines with the same fields, but for the digits of the checksum.\<close>

definition same_but_cks :: "hexline \<Rightarrow> hexline \<Rightarrow> bool" where
  "same_but_cks h h' \<longleftrightarrow>
     f_len h = f_len h' \<and> f_addr h = f_addr h' \<and> f_type h = f_type h' \<and> f_data h = f_data h'"

text \<open>The loop over a text of such lines (lemma \<open>read_loop_lines\<close> below).\<close>

fun run_lines :: "u32 \<Rightarrow> u32 \<Rightarrow> hexline list \<Rightarrow> rstate \<Rightarrow> (error \<times> mem) + rstate" where
  "run_lines start end [] st = Inr st"
| "run_lines start end (h # hs) st =
     (case line_effect start end h
             (st\<lparr>line := line_text h @ NUL # drop (Suc (length (line_text h))) (line st)\<rparr>) of
        Inl e \<Rightarrow> Inl e
      | Inr st' \<Rightarrow> run_lines start end hs st')"

text \<open>The variables of \<open>ihex_read\<close> without the array \<open>line\<close>.\<close>

definition erase :: "rstate \<Rightarrow> rstate" where
  "erase st = st\<lparr>line := []\<rparr>"

subsection \<open>What is said of the records written\<close>

text \<open>
  A data record of at most 32 bytes, as many as its length says, that ends at or before
  the end of the 64 KiB page where its address lies.
\<close>

fun chunk_ok :: "hexrec \<Rightarrow> bool" where
  "chunk_ok (Data chunk_len chunk_start bs cks) =
     (unat chunk_len \<le> 32 \<and> length bs = unat chunk_len
      \<and> unat (chunk_start AND 0xffff) + unat chunk_len \<le> 65536)"
| "chunk_ok _ = True"

text \<open>
  The placing of the records of type 04 in a list of records, where \<open>seen\<close> are the
  pages that have a data record already: a record of type 04 stands immediately before
  a data record, carries the page of that record, and that page has no data record
  before; a data record without a record of type 04 before it lies in a page that has a
  data record already.
\<close>

fun ela_placed :: "u32 list \<Rightarrow> hexrec list \<Rightarrow> bool" where
  "ela_placed seen [] = True"
| "ela_placed seen (Ela p c # Data n chunk_start bs k # rs) =
     (p \<notin> set seen \<and> drop_bit 16 chunk_start = p \<and> ela_placed (p # seen) rs)"
| "ela_placed seen (Ela p c # rs) = False"
| "ela_placed seen (Data n chunk_start bs k # rs) =
     (drop_bit 16 chunk_start \<in> set seen \<and> ela_placed seen rs)"
| "ela_placed seen (Eof # rs) = ela_placed seen rs"

text \<open>A record of type 04.\<close>

fun is_Ela :: "hexrec \<Rightarrow> bool" where
  "is_Ela (Ela p c) = True"
| "is_Ela _ = False"

text \<open>
  The bytes of a line of text: the values of its pairs of hexadecimal digits after the
  colon, up to the first character that is no digit. \<open>line_sum\<close> adds them up.
\<close>

fun hex_pairs :: "string \<Rightarrow> nat list" where
  "hex_pairs (a # b # cs) =
     (case (xdigit a, xdigit b) of
        (Some x, Some y) \<Rightarrow> (16 * x + y) # hex_pairs cs
      | _ \<Rightarrow> [])"
| "hex_pairs _ = []"

definition line_sum :: "string \<Rightarrow> nat" where
  "line_sum l = sum_list (hex_pairs (tl l))"

subsection \<open>What is said of the lines read\<close>

text \<open>The array \<open>line\<close> after \<open>fgets\<close> has read the next line of the rest of the file.\<close>

definition next_line :: "rstate \<Rightarrow> string \<Rightarrow> string" where
  "next_line st rest = (case fgets (line st) 523 rest of Some (ln, _) \<Rightarrow> ln | None \<Rightarrow> [])"

text \<open>
  The fields of a record as numbers: its length, its address, its type, and the 16-bit
  value that the first two data bytes of a record of type 02 or 04 encode.
\<close>

definition len_val :: "hexline \<Rightarrow> nat" where
  "len_val h = unat (hexval (f_len h))"

definition addr_val :: "hexline \<Rightarrow> nat" where
  "addr_val h = unat (hexval (f_addr h))"

definition type_val :: "hexline \<Rightarrow> nat" where
  "type_val h = unat (hexval (f_type h))"

definition ext_val :: "hexline \<Rightarrow> nat" where
  "ext_val h = unat (hexval (take 4 (f_data h)))"

text \<open>
  The sums that the tracker of the specification takes the maximum of: for every Data
  record (type 00) of a list of records, its address plus the offset plus its length,
  as natural numbers. The offset is \<open>off\<close> at the start; a record of type 02 sets it
  to its segment value times 16, a record of type 04 to its linear value times 65536.
\<close>

fun data_sums :: "nat \<Rightarrow> hexline list \<Rightarrow> nat list" where
  "data_sums off [] = []"
| "data_sums off (h # hs) =
     (if type_val h = 2 then data_sums (ext_val h * 16) hs
      else if type_val h = 4 then data_sums (ext_val h * 65536) hs
      else if type_val h = 0 then (addr_val h + off + len_val h) # data_sums off hs
      else data_sums off hs)"

text \<open>A record that is not a Data record without data bytes.\<close>

definition has_bytes :: "hexline \<Rightarrow> bool" where
  "has_bytes h \<longleftrightarrow> type_val h \<noteq> 0 \<or> 0 < len_val h"

subsection \<open>The records written, as lines\<close>

text \<open>The fields of the line that \<open>ihex_write\<close> prints for a record.\<close>

fun to_line :: "hexrec \<Rightarrow> hexline" where
  "to_line (Ela cur_ela cks) = HexLine ''02'' ''0000'' ''04'' (fmt_X 4 cur_ela) (fmt_X 2 (ucast cks))"
| "to_line (Data chunk_len chunk_start bs cks) =
     HexLine (fmt_X 2 chunk_len) (fmt_X 4 (chunk_start AND 0xffff)) ''00''
       (concat (map (\<lambda>b. fmt_X 2 (ucast b)) bs)) (fmt_X 2 (ucast cks))"
| "to_line Eof = HexLine ''00'' ''0000'' ''01'' [] ''FF''"

text \<open>The records that \<open>ihex_write\<close> writes print as lines of the laid-out form.\<close>

fun rec_ok :: "hexrec \<Rightarrow> bool" where
  "rec_ok (Ela p c) = (unat p < 65536)"
| "rec_ok r = chunk_ok r"

section \<open>Properties\<close>

subsection \<open>The line that has a header\<close>

lemma header_line_nonempty: "sscanf_header (cstr ln 0) = Some h \<Longrightarrow> 0 < strlen ln"
  by (auto simp: sscanf_header_def strlen_def split: list.splits)

subsection \<open>The example of three bytes\<close>

text \<open>
  C2, as the specification states it: the buffer 0x11, 0x22, 0x33 at addresses 0 to 3
  is written as \<open>:03000000112233CB\<close> and the end record. It is not: the checksum of
  that record is 0x97 (3 + 0x11 + 0x22 + 0x33 = 0x69, and 0x69 + 0x97 = 0x100).
\<close>

theorem example_text_counterexample:
  "ihex_write (mem_of [0x11, 0x22, 0x33]) 0 3 \<noteq> '':03000000112233CB\<newline>:00000001FF\<newline>''"
  by code_simp

text \<open>
  C2, amended: the buffer 0x11, 0x22, 0x33 at addresses 0 to 3 is written as
  \<open>:0300000011223397\<close> and the end record, and reading that text back for the same
  addresses stores 0x11, 0x22, 0x33 and returns 3; so does reading the text of the
  specification, whose checksum is not looked at.
\<close>

theorem example_text:
  "ihex_write (mem_of [0x11, 0x22, 0x33]) 0 3 = '':0300000011223397\<newline>:00000001FF\<newline>''
   \<and> outcome (ihex_read '':0300000011223397\<newline>:00000001FF\<newline>'' (mem_of []) 0 3) 3
       = Inr (3, [0x11, 0x22, 0x33])
   \<and> outcome (ihex_read '':03000000112233CB\<newline>:00000001FF\<newline>'' (mem_of []) 0 3) 3
       = Inr (3, [0x11, 0x22, 0x33])"
  by code_simp

subsection \<open>Carriage returns\<close>

text \<open>
  C8: a line that ends in carriage return and newline is read as the same line with the
  newline alone. The code looks for the carriage return at \<open>line[strlen(line)]\<close>,
  where the terminating NUL stands, so nothing is stripped: the record
  \<open>:01000000AA\<close> is read with a newline, and is an error at byte 11 with a carriage
  return before the newline.
\<close>

theorem carriage_return_kept:
  "outcome (ihex_read ('':01000000AA'' @ [CHR 0x0A]) (mem_of []) 0 3) 3 = Inr (1, [0xAA, 0, 0])
   \<and> outcome (ihex_read ('':01000000AA'' @ [CHR 0x0D, CHR 0x0A]) (mem_of []) 0 3) 3
       = Inl (ParseByteError 1 11)"
  by code_simp

subsection \<open>Stores and the window\<close>

text \<open>
  C10: every store of \<open>ihex_read\<close> falls inside the window of \<open>end - start\<close> bytes. With
  the window 0 to 0x100 (256 bytes), the page 0xFFFF and a record of two bytes at
  0xFFFF, the sum \<open>chunk_addr + offset\<close> is 0xFFFFFFFF, the sum
  \<open>chunk_addr + offset + chunk_len\<close> wraps around to 1, the check against \<open>end\<close>
  passes, and the first byte is stored at the index 0xFFFFFFFF (the second at 0). With
  the window 0 to 2 and a length field that reads as -1, the check passes alike and
  bytes are stored at the indices 1 to 4.
\<close>

theorem store_outside_window:
  "outcome_at (ihex_read '':02000004FFFFFC\<newline>:02FFFF00AABB9B\<newline>'' (mem_of []) 0 0x100)
     [0xFFFFFFFF, 0] = Inr (1, [0xAA, 0xBB])
   \<and> outcome (ihex_read '':-1000100AABBCC00\<newline>'' (mem_of []) 0 2) 5
     = Inr (0, [0, 0xAA, 0xBB, 0xCC, 0])"
  by code_simp

subsection \<open>The checksum\<close>

lemma fold_add_ucast:
  "fold (\<lambda>b s. s + ucast b) bs (s0 :: u32) = s0 + sum_list (map ucast (bs :: u8 list))"
  by (induction bs arbitrary: s0) (simp_all add: add.assoc)

lemma ucast_low_byte: "(ucast ((x :: u32) AND 0xff) :: u8) = ucast x"
proof -
  have "x AND 0xff = take_bit 8 x" by (simp add: take_bit_eq_mask mask_eq_exp_minus_1)
  moreover have "(ucast (take_bit 8 x) :: u8) = ucast x"
    by (rule bit_word_eqI) (auto simp: bit_simps)
  ultimately show ?thesis by simp
qed

lemma unat_ucast_8_32: "unat (ucast (b :: u8) :: u32) = unat b"
proof -
  have "unat b < 2 ^ 8" using unsigned_less [of b, where ?'a = nat] by simp
  then have "unat b < 2 ^ 32" by simp
  then show ?thesis by (simp add: unsigned_ucast_eq take_bit_nat_eq_self)
qed


lemma uint_cks: "uint (ucast ((NOT (w :: u32) + 1) AND 0xff) :: u8) = (- uint w) mod 256"
proof -
  have "NOT w + 1 = - w" by (simp add: minus_eq_not_plus_1)
  then have "uint (ucast ((NOT w + 1) AND 0xff) :: u8) = take_bit 8 (take_bit 32 (- uint w))"
    by (simp add: ucast_low_byte unsigned_ucast_eq uint_word_arith_bintrs)
  then show ?thesis by (simp add: take_bit_eq_mod mod_mod_cancel)
qed

lemma unat_sum_bytes:
  "unat (sum_list (map ucast (bs :: u8 list)) :: u32) mod 256 = sum_list (map unat bs) mod 256"
proof (induction bs)
  case Nil
  then show ?case by simp
next
  case (Cons b bs)
  have "unat (ucast b + sum_list (map ucast bs) :: u32) mod 256
        = (unat (ucast b :: u32) + unat (sum_list (map ucast bs) :: u32)) mod 256"
    by (simp add: unat_word_ariths mod_mod_cancel)
  also have "\<dots> = (unat b + unat (sum_list (map ucast bs) :: u32) mod 256) mod 256"
    by (simp add: mod_add_right_eq unat_ucast_8_32)
  also have "\<dots> = (unat b + sum_list (map unat bs) mod 256) mod 256"
    by (simp only: Cons.IH)
  finally show ?case by (simp add: mod_add_right_eq)
qed

lemma unat_add4_mod:
  "unat ((a :: u32) + b + c + d + e) mod 256 = (unat a + unat b + unat c + unat d + unat e) mod 256"
proof -
  have *: "\<And>x y :: u32. unat (x + y) mod 256 = (unat x mod 256 + unat y mod 256) mod 256"
    by (simp add: unat_word_ariths mod_mod_cancel mod_add_eq)
  show ?thesis
    by (simp add: * mod_add_eq mod_add_left_eq mod_add_right_eq) 
qed

lemma checksum_sum:
  "(unat chunk_len + unat (LO chunk_addr) + unat (HI chunk_addr) + unat chunk_type
      + sum_list (map unat bs) + unat (checksum bs chunk_len chunk_addr chunk_type)) mod 256 = 0"
proof -
  define w :: u32 where
    "w = chunk_len + LO chunk_addr + HI chunk_addr + chunk_type + sum_list (map ucast bs)"
  define t where "t = unat chunk_len + unat (LO chunk_addr) + unat (HI chunk_addr) + unat chunk_type
      + sum_list (map unat bs)"
  have c: "checksum bs chunk_len chunk_addr chunk_type = ucast ((NOT w + 1) AND 0xff)"
    by (simp add: checksum_def Let_def fold_add_ucast w_def)
  have "unat w mod 256 = (unat chunk_len + unat (LO chunk_addr) + unat (HI chunk_addr)
      + unat chunk_type + unat (sum_list (map ucast bs) :: u32) mod 256) mod 256"
    unfolding w_def unat_add4_mod by (simp add: mod_add_right_eq)
  also have "\<dots> = t mod 256"
    unfolding unat_sum_bytes t_def by (simp add: mod_add_right_eq)
  finally have wt: "unat w mod 256 = t mod 256" .
  have "int (unat (checksum bs chunk_len chunk_addr chunk_type)) = (- uint w) mod 256"
    unfolding c by (simp add: uint_cks)
  then have "(int (unat w) + int (unat (checksum bs chunk_len chunk_addr chunk_type))) mod 256 = 0"
    by (simp add: mod_add_right_eq)
  then have "(unat w + unat (checksum bs chunk_len chunk_addr chunk_type)) mod 256 = 0"
    by (metis (no_types) of_nat_add of_nat_mod of_nat_numeral of_nat_eq_0_iff)
  then have "(unat w mod 256 + unat (checksum bs chunk_len chunk_addr chunk_type)) mod 256 = 0"
    by (simp add: mod_add_left_eq)
  then have "(t mod 256 + unat (checksum bs chunk_len chunk_addr chunk_type)) mod 256 = 0"
    by (simp only: wt)
  then show ?thesis
    unfolding t_def by (simp add: mod_add_left_eq)
qed

subsection \<open>Hexadecimal digits written and read\<close>

lemma xdigit_hexchar_all: "list_all (\<lambda>d. xdigit (hexchar d) = Some d) [0..<16]"
  by code_simp

lemma xdigit_hexchar: "d < 16 \<Longrightarrow> xdigit (hexchar d) = Some d"
  using xdigit_hexchar_all by (simp add: list_all_iff)

lemma hexchar_0: "hexchar 0 = CHR ''0''"
  by (simp add: hexchar_def)

lemma hexn_0: "hexn k 0 = replicate k (CHR ''0'')"
  by (induction k) (simp_all add: hexchar_0 replicate_append_same)

lemma length_hexn: "length (hexn k n) = k"
  by (induction k arbitrary: n) simp_all

lemma pad_hex_digits:
  "n < 16 ^ Suc k \<Longrightarrow>
   replicate (Suc k - length (hex_digits n)) (CHR ''0'') @ hex_digits n = hexn (Suc k) n"
proof (induction k arbitrary: n)
  case 0
  then show ?case by (simp add: hex_digits.simps [of n])
next
  case (Suc k)
  show ?case
  proof (cases "n < 16")
    case True
    then show ?thesis
      by (simp add: hex_digits.simps [of n] hexn_0 hexchar_0 replicate_append_same)
  next
    case False
    have "n div 16 < 16 ^ Suc k" using Suc.prems by (simp add: less_mult_imp_div_less)
    from Suc.IH [OF this] False show ?thesis
      by (simp add: hex_digits.simps [of n])
  qed
qed

lemma fmt_X_hexn: "unat x < 16 ^ Suc k \<Longrightarrow> fmt_X (Suc k) x = hexn (Suc k) (unat x)"
  unfolding fmt_X_def Let_def by (rule pad_hex_digits)

lemma xdigit_not_special:
  assumes "xdigit c \<noteq> None"
  shows "\<not> isspace c" "c \<noteq> CHR ''-''" "c \<noteq> CHR ''+''" "c \<noteq> CHR ''x''" "c \<noteq> CHR ''X''"
    "c \<noteq> NUL" "c \<noteq> CHR 0x0A" "c \<noteq> CHR '':''"
  using assms by (auto simp: xdigit_def isspace_def NUL_def)

lemma scan_prefix_digits:
  assumes "xdigits (c # cs)" "length (c # cs) = w"
  shows "scan_prefix w (c # cs @ rest) = (w, c # cs @ rest)"
proof (cases cs)
  case Nil
  then have "w = 1" using assms by simp
  then show ?thesis by (cases rest) (simp_all add: scan_prefix_def Nil)
next
  case (Cons d ds)
  then have "xdigit d \<noteq> None" using assms by (simp add: xdigits_def)
  then have "d \<noteq> CHR ''x''" "d \<noteq> CHR ''X''" by (rule xdigit_not_special)+
  then show ?thesis by (simp add: scan_prefix_def Cons)
qed

lemma scan_x_digits:
  assumes "xdigits ds" "length ds = w" "ds \<noteq> []"
  shows "scan_x w (ds @ rest) = Some (hexval ds, rest)"
proof -
  obtain c cs where ds: "ds = c # cs" using assms(3) by (cases ds) auto
  have c: "xdigit c \<noteq> None" using assms(1) by (simp add: ds xdigits_def)
  have sp: "dropWhile isspace (ds @ rest) = ds @ rest"
    using xdigit_not_special(1) [OF c] by (simp add: ds)
  have sg: "scan_sign w (ds @ rest) = (False, w, ds @ rest)"
    using xdigit_not_special(2,3) [OF c] by (simp add: ds scan_sign_def)
  have pf: "scan_prefix w (ds @ rest) = (w, ds @ rest)"
    using scan_prefix_digits [of c cs w rest] assms(1,2) by (simp add: ds)
  have tw: "takeWhile (\<lambda>c. xdigit c \<noteq> None) (take w (ds @ rest)) = ds"
    using assms(1,2) by (simp add: xdigits_def list_all_iff)
  show ?thesis
    unfolding scan_x_def sp sg pf Let_def prod.case tw using assms(3) assms(2) by simp
qed

lemma sscanf_x_digits:
  assumes "xdigits ds" "length ds = w" "ds \<noteq> []"
  shows "sscanf_x w (ds @ rest) = Some (hexval ds)"
  by (simp add: sscanf_x_def scan_x_digits [OF assms])

lemma sscanf_header_digits:
  assumes "xdigits ll" "length ll = 2" "xdigits aaaa" "length aaaa = 4" "xdigits tt" "length tt = 2"
  shows "sscanf_header (CHR '':'' # ll @ aaaa @ tt @ rest) = Some (hexval ll, hexval aaaa, hexval tt)"
proof -
  have 1: "scan_x 2 (ll @ aaaa @ tt @ rest) = Some (hexval ll, aaaa @ tt @ rest)"
    using assms(1,2) by (intro scan_x_digits) auto
  have 2: "scan_x 4 (aaaa @ tt @ rest) = Some (hexval aaaa, tt @ rest)"
    using assms(3,4) by (intro scan_x_digits) auto
  have 3: "scan_x 2 (tt @ rest) = Some (hexval tt, rest)"
    using assms(5,6) by (intro scan_x_digits) auto
  show ?thesis by (simp add: sscanf_header_def 1 2 3)
qed

lemma xdigits_hexn: "xdigits (hexn k n)"
  by (induction k arbitrary: n) (simp_all add: xdigits_def xdigit_hexchar)

lemma hexval_snoc: "xdigit c = Some d \<Longrightarrow> hexval (ds @ [c]) = hexval ds * 16 + of_nat d"
  by (simp add: hexval_def)

lemma hexval_hexn: "hexval (hexn k n) = of_nat (n mod 16 ^ k)"
proof (induction k arbitrary: n)
  case 0
  then show ?case by (simp add: hexval_def)
next
  case (Suc k)
  have "hexval (hexn (Suc k) n) = of_nat ((n div 16) mod 16 ^ k) * 16 + of_nat (n mod 16)"
    by (simp add: hexval_snoc [OF xdigit_hexchar] Suc.IH)
  also have "\<dots> = of_nat (((n div 16) mod 16 ^ k) * 16 + n mod 16)"
    by simp
  also have "((n div 16) mod 16 ^ k) * 16 + n mod 16 = n mod 16 ^ Suc k"
    by (simp add: mod_mult2_eq)
  finally show ?case .
qed

lemma hexval_fmt_X:
  "unat x < 16 ^ Suc k \<Longrightarrow> hexval (fmt_X (Suc k) x) = x"
  by (simp add: fmt_X_hexn hexval_hexn del: hexn.simps power_Suc)

lemma xdigits_append [simp]: "xdigits (a @ b) = (xdigits a \<and> xdigits b)"
  by (simp add: xdigits_def)

lemma xdigits_Cons [simp]: "xdigits (c # cs) = (xdigit c \<noteq> None \<and> xdigits cs)"
  by (simp add: xdigits_def)

lemma xdigits_Nil [simp]: "xdigits []"
  by (simp add: xdigits_def)

lemma xdigit_NUL [simp]: "xdigit NUL = None"
  by (simp add: xdigit_def NUL_def)

lemma newline_not_NUL [simp]: "CHR 0x0A \<noteq> NUL" "CHR '':'' \<noteq> NUL"
  by (simp_all add: NUL_def)

lemma xdigits_no_NUL:
  "xdigits ds \<Longrightarrow> takeWhile (\<lambda>c. c \<noteq> NUL) (ds @ rest) = ds @ takeWhile (\<lambda>c. c \<noteq> NUL) rest"
  by (induction ds) auto

lemma cstr_at:
  assumes "length pre = i" "xdigits body"
  shows "cstr (pre @ body @ CHR 0x0A # NUL # junk) i = body @ [CHR 0x0A]"
  using assms by (simp add: cstr_def xdigits_no_NUL)

lemma strlen_line:
  assumes "xdigits body"
  shows "strlen (CHR '':'' # body @ CHR 0x0A # NUL # junk) = length body + 2"
  using assms by (simp add: strlen_def cstr_def xdigits_no_NUL)

lemma data_loop_stores:
  assumes "line st = pre @ todo @ cc @ CHR 0x0A # NUL # junk"
    and "pre = CHR '':'' # hdr @ seen" and "length hdr = 8" and "length seen = 2 * j"
    and "xdigits hdr" and "xdigits seen" and "xdigits todo" and "xdigits cc"
    and "length todo = 2 * k" and "length cc = 2"
    and "j + k = unat chunk_len"
    and "\<not> chunk_addr + offset st < start"
    and "\<not> chunk_addr + offset st + chunk_len > end"
  shows "data_loop start end chunk_len chunk_addr 0 (9 + 2 * j) st =
     Inr (st\<lparr>greatest_addr := (if 0 < k then max (greatest_addr st) (chunk_addr + offset st + chunk_len)
                                 else greatest_addr st),
             buf := store_bytes (buf st) (chunk_addr + offset st - start) j (pair_bytes todo)\<rparr>)"
  using assms
proof (induction k arbitrary: j st pre todo seen)
  case 0
  have ln: "line st = CHR '':'' # (hdr @ seen @ cc) @ CHR 0x0A # NUL # junk"
    using 0 by simp
  have sl: "strlen (line st) = 12 + 2 * j"
    unfolding ln using 0 by (subst strlen_line) auto
  have cs: "cstr (line st) (9 + 2 * j) = cc @ [CHR 0x0A]"
    using 0 cstr_at [of "CHR '':'' # hdr @ seen" "9 + 2 * j" cc junk] by simp
  have sc: "sscanf_x 2 (cc @ [CHR 0x0A]) = Some (hexval cc)"
    using 0 by (intro sscanf_x_digits) auto
  have ge: "of_nat j \<ge> chunk_len" using 0 by simp
  have td: "todo = []" using 0 by simp
  show ?case
    by (subst data_loop.simps) (simp add: sl cs sc ge td)
next
  case (Suc k)
  obtain a b todo' where td: "todo = a # b # todo'"
    using Suc.prems(9) by (cases todo; cases "tl todo") auto
  have xa: "xdigits [a, b]" and xt: "xdigits todo'" and lt: "length todo' = 2 * k"
    using Suc.prems(7,9) by (simp_all add: td)
  have ln: "line st = CHR '':'' # (hdr @ seen @ todo @ cc) @ CHR 0x0A # NUL # junk"
    using Suc.prems(1,2) by simp
  have sl: "strlen (line st) = 14 + 2 * j + 2 * k"
    unfolding ln using Suc.prems by (subst strlen_line) auto
  have cs: "cstr (line st) (9 + 2 * j) = a # b # todo' @ cc @ [CHR 0x0A]"
    using Suc.prems cstr_at [of "CHR '':'' # hdr @ seen" "9 + 2 * j" "todo @ cc" junk]
    by (simp add: td)
  have sc: "sscanf_x 2 (a # b # todo' @ cc @ [CHR 0x0A]) = Some (hexval [a, b])"
    using xa sscanf_x_digits [of "[a, b]" 2 "todo' @ cc @ [CHR 0x0A]"] by simp
  have "j < unat chunk_len" using Suc.prems(11) by simp
  then have "unat (of_nat j :: u32) < unat chunk_len"
    by (metis le_unat_uoi nat_less_le)
  then have ge: "\<not> of_nat j \<ge> chunk_len"
    by (simp add: word_le_nat_alt)
  define st1 where "st1 = (if chunk_addr + offset st + chunk_len > greatest_addr st
                         then st\<lparr>greatest_addr := chunk_addr + offset st + chunk_len\<rparr>
                         else st)"
  define st2 where "st2 = st1\<lparr>buf := (buf st1)
                          (chunk_addr + offset st1 - start + of_nat j := ucast (hexval [a, b]))\<rparr>"
  have st1: "line st1 = line st" "offset st1 = offset st" "buf st1 = buf st"
    "greatest_addr st1 = max (greatest_addr st) (chunk_addr + offset st + chunk_len)"
    by (auto simp: st1_def max_def)
  have st2: "line st2 = line st" "offset st2 = offset st"
    "buf st2 = (buf st)(chunk_addr + offset st - start + of_nat j := ucast (hexval [a, b]))"
    "greatest_addr st2 = max (greatest_addr st) (chunk_addr + offset st + chunk_len)"
    by (simp_all add: st2_def st1)
  have step: "data_loop start end chunk_len chunk_addr 0 (9 + 2 * j) st
      = data_loop start end chunk_len chunk_addr 0 (9 + 2 * Suc j) st2"
    using Suc.prems(12,13)
    by (subst data_loop.simps) (simp add: sl cs sc ge st1_def st2_def Let_def)
  have ih: "data_loop start end chunk_len chunk_addr 0 (9 + 2 * Suc j) st2 =
     Inr (st2\<lparr>greatest_addr := (if 0 < k then max (greatest_addr st2) (chunk_addr + offset st2 + chunk_len)
                                 else greatest_addr st2),
             buf := store_bytes (buf st2) (chunk_addr + offset st2 - start) (Suc j) (pair_bytes todo')\<rparr>)"
  proof (rule Suc.IH [where pre = "pre @ [a, b]" and seen = "seen @ [a, b]"])
    show "line st2 = (pre @ [a, b]) @ todo' @ cc @ CHR 0x0A # NUL # junk"
      using Suc.prems(1) by (simp add: st2 td)
    show "pre @ [a, b] = CHR '':'' # hdr @ seen @ [a, b]" using Suc.prems(2) by simp
    show "length hdr = 8" by fact
    show "length (seen @ [a, b]) = 2 * Suc j" using Suc.prems(4) by simp
    show "xdigits hdr" by fact
    show "xdigits (seen @ [a, b])" using Suc.prems(6) xa by simp
    show "xdigits todo'" by fact
    show "xdigits cc" by fact
    show "length todo' = 2 * k" by fact
    show "length cc = 2" by fact
    show "Suc j + k = unat chunk_len" using Suc.prems(11) by simp
    show "\<not> chunk_addr + offset st2 < start" using Suc.prems(12) by (simp add: st2)
    show "\<not> end < chunk_addr + offset st2 + chunk_len" using Suc.prems(13) by (simp add: st2)
  qed
  have eq: "st2\<lparr>greatest_addr := (if 0 < k then max (greatest_addr st2) (chunk_addr + offset st2 + chunk_len)
                                 else greatest_addr st2),
             buf := store_bytes (buf st2) (chunk_addr + offset st2 - start) (Suc j) (pair_bytes todo')\<rparr>
     = st\<lparr>greatest_addr := max (greatest_addr st) (chunk_addr + offset st + chunk_len),
             buf := store_bytes (buf st) (chunk_addr + offset st - start) j (pair_bytes todo)\<rparr>"
    by (simp add: st2 td) (simp add: st2_def st1_def)
  show ?case
    unfolding step ih eq by simp
qed

lemma nth_strlen: "NUL \<in> set ln \<Longrightarrow> ln ! strlen ln = NUL"
proof -
  assume "NUL \<in> set ln"
  then have "length (takeWhile (\<lambda>c. c \<noteq> NUL) ln) < length ln"
    by (induction ln) auto
  from nth_length_takeWhile [OF this] show ?thesis
    by (simp add: strlen_def cstr_def)
qed

lemma strip_cr_id: "NUL \<in> set (line st) \<Longrightarrow> strip_cr st = st"
  by (simp add: strip_cr_def nth_strlen NUL_def)

lemma xdigit_less: "xdigit c = Some d \<Longrightarrow> d < 16"
  by (auto simp: xdigit_def Let_def split: if_splits)

lemma hexval_pair_less:
  assumes "xdigits ds" "length ds = 2"
  shows "unat (hexval ds) < 256"
proof -
  obtain a b where ds: "ds = [a, b]" using assms(2)
    by (cases ds; cases "tl ds") auto
  obtain x y where x: "xdigit a = Some x" and y: "xdigit b = Some y"
    using assms(1) by (auto simp: ds)
  have "x < 16" "y < 16" using x y by (auto dest: xdigit_less)
  then have "x * 16 + y < 256" by simp
  moreover have "hexval ds = of_nat (x * 16 + y)" by (simp add: ds hexval_def x y)
  moreover have "unat (of_nat (x * 16 + y) :: u32) \<le> x * 16 + y"
    by (metis unat_of_nat mod_less_eq_dividend)
  ultimately show ?thesis by (simp only:)
qed

lemma data_loop_break:
  assumes "9 < strlen (line st) - 1" "sscanf_x 2 (cstr (line st) 9) = Some byte"
    and "chunk_type \<noteq> 0 \<or> chunk_len = 0"
  shows "data_loop start end chunk_len chunk_addr chunk_type 9 st = Inr st"
  using assms by (subst data_loop.simps) auto

lemma data_loop_range:
  assumes "9 < strlen (line st) - 1" "sscanf_x 2 (cstr (line st) 9) = Some byte"
    and "0 < chunk_len"
    and "chunk_addr + offset st < start \<or> end < chunk_addr + offset st + chunk_len"
  shows "data_loop start end chunk_len chunk_addr 0 9 st =
     Inl (if chunk_addr + offset st < start then AddrRange chunk_addr (line_no st)
          else AddrLenRange chunk_addr chunk_len (line_no st), buf st)"
proof -
  have "\<not> chunk_len \<le> 0" using assms(3) by (simp add: word_greater_zero_iff)
  then show ?thesis
    using assms by (subst data_loop.simps) auto
qed

lemma cstr_line_text: "wf_line h \<Longrightarrow> cstr (line_text h @ NUL # junk) 0 = line_text h"
  using xdigits_no_NUL [of "f_len h @ f_addr h @ f_type h @ f_data h @ f_cks h" "CHR 0x0A # NUL # junk"]
  by (simp add: cstr_def line_text_def wf_line_def)

lemma strlen_line_text: "wf_line h \<Longrightarrow> strlen (line_text h @ NUL # junk) = 12 + length (f_data h)"
  by (simp add: strlen_def cstr_line_text) (simp add: line_text_def wf_line_def)

lemma cstr9_line_text:
  "wf_line h \<Longrightarrow> cstr (line_text h @ NUL # junk) 9 = f_data h @ f_cks h @ [CHR 0x0A]"
  using cstr_at [of "CHR '':'' # f_len h @ f_addr h @ f_type h" 9 "f_data h @ f_cks h" junk]
  by (simp add: line_text_def wf_line_def)

lemma sscanf_header_line_text:
  "wf_line h \<Longrightarrow> sscanf_header (line_text h) = Some (hexval (f_len h), hexval (f_addr h), hexval (f_type h))"
  unfolding line_text_def wf_line_def by (intro sscanf_header_digits) auto

lemma sscanf_first_pair:
  assumes "xdigits body" "2 \<le> length body"
  shows "sscanf_x 2 (body @ rest) = Some (hexval (take 2 body))"
proof -
  have "sscanf_x 2 (take 2 body @ (drop 2 body @ rest)) = Some (hexval (take 2 body))"
    using assms by (intro sscanf_x_digits) (auto simp: xdigits_def list_all_iff dest: in_set_takeD)
  then show ?thesis by (metis append_assoc append_take_drop_id)
qed

lemma sscanf_first_four:
  assumes "xdigits body" "4 \<le> length body"
  shows "sscanf_x 4 (body @ rest) = Some (hexval (take 4 body))"
proof -
  have "sscanf_x 4 (take 4 body @ (drop 4 body @ rest)) = Some (hexval (take 4 body))"
    using assms by (intro sscanf_x_digits) (auto simp: xdigits_def list_all_iff dest: in_set_takeD)
  then show ?thesis by (metis append_assoc append_take_drop_id)
qed

lemma read_body_wf:
  assumes wf: "wf_line h" and ext: "ext_ok h" and ln: "line st0 = line_text h @ NUL # junk"
  shows "read_body start end st0 = line_effect start end h st0"
proof -
  define chunk_len where "chunk_len = hexval (f_len h)"
  define chunk_addr where "chunk_addr = hexval (f_addr h)"
  define chunk_type where "chunk_type = hexval (f_type h)"
  define st1 where "st1 = st0\<lparr>line_no := line_no st0 + 1\<rparr>"
  define st2 where "st2 = (if chunk_type = 2 then st1\<lparr>offset := hexval (take 4 (f_data h)) * 16\<rparr>
                else if chunk_type = 4 then st1\<lparr>offset := hexval (take 4 (f_data h)) * 65536\<rparr> else st1)"
  have l1: "line st1 = line_text h @ NUL # junk" by (simp add: st1_def ln)
  have l2: "line st2 = line_text h @ NUL # junk" by (simp add: st2_def l1)
  have sc: "strip_cr st1 = st1" by (rule strip_cr_id) (simp add: l1)
  have hd: "sscanf_header (cstr (line st1) 0) = Some (chunk_len, chunk_addr, chunk_type)"
    by (simp add: l1 cstr_line_text [OF wf] sscanf_header_line_text [OF wf]
        chunk_len_def chunk_addr_def chunk_type_def)
  have dl: "length (f_data h) = 2 * unat chunk_len" and xd: "xdigits (f_data h)"
    and xc: "xdigits (f_cks h)" and lc: "length (f_cks h) = 2"
    using wf by (simp_all add: wf_line_def chunk_len_def)
  have four: "chunk_type = 2 \<or> chunk_type = 4 \<Longrightarrow>
      sscanf_x 4 (cstr (line st1) 9) = Some (hexval (take 4 (f_data h)))"
  proof -
    assume "chunk_type = 2 \<or> chunk_type = 4"
    then have "4 \<le> length (f_data h)" using ext dl by (simp add: ext_ok_def chunk_type_def chunk_len_def)
    then show ?thesis
      using xd by (simp add: l1 cstr9_line_text [OF wf] sscanf_first_four)
  qed
  have esa: "read_esa chunk_type st1 = Inr (if chunk_type = 2
       then st1\<lparr>offset := hexval (take 4 (f_data h)) * 16\<rparr> else st1)"
    using four by (simp add: read_esa_def)
  have l1': "line (st1\<lparr>offset := x\<rparr>) = line st1" for x by simp
  have ela: "read_ela chunk_type (if chunk_type = 2
       then st1\<lparr>offset := hexval (take 4 (f_data h)) * 16\<rparr> else st1) = Inr st2"
    using four by (auto simp: read_ela_def st2_def)
  have rb: "read_body start end st0 = data_loop start end chunk_len chunk_addr chunk_type 9 st2"
    by (simp add: read_body_def Let_def st1_def [symmetric] sc hd esa ela)
  have le: "line_effect start end h st0 =
     (if chunk_type \<noteq> 0 \<or> chunk_len = 0 then Inr st2
         else if chunk_addr + offset st2 < start
           then Inl (AddrRange chunk_addr (line_no st2), buf st2)
         else if chunk_addr + offset st2 + chunk_len > end
           then Inl (AddrLenRange chunk_addr chunk_len (line_no st2), buf st2)
         else Inr (st2\<lparr>greatest_addr := max (greatest_addr st2) (chunk_addr + offset st2 + chunk_len),
                       buf := store_bytes (buf st2) (chunk_addr + offset st2 - start) 0
                                (pair_bytes (f_data h))\<rparr>))"
    by (simp only: line_effect_def Let_def st2_def st1_def chunk_len_def chunk_addr_def chunk_type_def)
  have sl: "9 < strlen (line st2) - 1"
    by (simp add: l2 strlen_line_text [OF wf])
  have pr: "sscanf_x 2 (cstr (line st2) 9) = Some (hexval (take 2 (f_data h @ f_cks h)))"
    using sscanf_first_pair [of "f_data h @ f_cks h" "[CHR 0x0A]"] xd xc lc
    by (simp add: l2 cstr9_line_text [OF wf])
  show ?thesis
  proof (cases "chunk_type \<noteq> 0 \<or> chunk_len = 0")
    case True
    then have "data_loop start end chunk_len chunk_addr chunk_type 9 st2 = Inr st2"
      using sl pr by (intro data_loop_break) auto
    then show ?thesis
      using True unfolding rb le by simp
  next
    case False
    then have ty: "chunk_type = 0" and pos: "0 < chunk_len"
      by (simp_all add: word_greater_zero_iff)
    show ?thesis
    proof (cases "chunk_addr + offset st2 < start \<or> end < chunk_addr + offset st2 + chunk_len")
      case True
      from data_loop_range [OF sl pr pos True] show ?thesis
        using True False unfolding rb le by (auto simp: ty)
    next
      case ok: False
      have "data_loop start end chunk_len chunk_addr 0 (9 + 2 * 0) st2 =
        Inr (st2\<lparr>greatest_addr := (if 0 < unat chunk_len
                        then max (greatest_addr st2) (chunk_addr + offset st2 + chunk_len)
                        else greatest_addr st2),
             buf := store_bytes (buf st2) (chunk_addr + offset st2 - start) 0 (pair_bytes (f_data h))\<rparr>)"
      proof (rule data_loop_stores [where pre = "CHR '':'' # f_len h @ f_addr h @ f_type h"
            and hdr = "f_len h @ f_addr h @ f_type h" and seen = "[]" and cc = "f_cks h" and junk = junk])
        show "line st2 = (CHR '':'' # f_len h @ f_addr h @ f_type h) @ f_data h @ f_cks h @ CHR 0x0A # NUL # junk"
          by (simp add: l2 line_text_def)
        show "length (f_len h @ f_addr h @ f_type h) = 8" using wf by (simp add: wf_line_def)
        show "xdigits (f_len h @ f_addr h @ f_type h)" using wf by (simp add: wf_line_def)
        show "0 + unat chunk_len = unat chunk_len" by simp
        show "\<not> chunk_addr + offset st2 < start" "\<not> end < chunk_addr + offset st2 + chunk_len"
          using ok by simp_all
      qed (simp_all add: xd xc lc dl)
      moreover have "0 < unat chunk_len" using pos by (simp add: word_less_nat_alt)
      ultimately show ?thesis
        using ok False unfolding rb le by (simp add: ty)
    qed
  qed
qed

lemma read_line_upto:
  "CHR 0x0A \<notin> set body \<Longrightarrow> length body < n \<Longrightarrow>
   read_line n (body @ CHR 0x0A # rest) = body @ [CHR 0x0A]"
proof (induction body arbitrary: n)
  case Nil
  then show ?case by (cases n) simp_all
next
  case (Cons c cs)
  then show ?case by (cases n) auto
qed

lemma xdigit_newline [simp]: "xdigit (CHR 0x0A) = None"
  by (simp add: xdigit_def)

lemma xdigits_no_newline: "xdigits ds \<Longrightarrow> CHR 0x0A \<notin> set ds"
  by (induction ds) auto

lemma length_line_text:
  assumes "wf_line h"
  shows "length (line_text h) = 12 + 2 * unat (hexval (f_len h))" "length (line_text h) \<le> 522"
proof -
  show l: "length (line_text h) = 12 + 2 * unat (hexval (f_len h))"
    using assms by (simp add: line_text_def wf_line_def)
  have "unat (hexval (f_len h)) < 256"
    using assms by (intro hexval_pair_less) (simp_all add: wf_line_def)
  then show "length (line_text h) \<le> 522" unfolding l by simp
qed

lemma fgets_line_text:
  assumes "wf_line h"
  shows "fgets ln 523 (line_text h @ rest)
           = Some (line_text h @ NUL # drop (Suc (length (line_text h))) ln, rest)"
proof -
  define body where "body = CHR '':'' # f_len h @ f_addr h @ f_type h @ f_data h @ f_cks h"
  have lt: "line_text h = body @ [CHR 0x0A]" by (simp add: line_text_def body_def)
  have nn: "CHR 0x0A \<notin> set body"
    using assms by (auto simp: body_def wf_line_def dest: xdigits_no_newline)
  have "length body < 522" using length_line_text(2) [OF assms] by (simp add: lt)
  from read_line_upto [OF nn this, of rest]
  have rl: "read_line 522 (line_text h @ rest) = line_text h" by (simp add: lt)
  have ne: "line_text h @ rest \<noteq> []" by (simp add: line_text_def)
  show ?thesis using ne by (simp add: fgets_def rl Let_def)
qed

lemma fgets_Nil: "fgets ln n [] = None"
  by (simp add: fgets_def)

lemma read_loop_lines:
  assumes "list_all wf_line hs" "list_all ext_ok hs"
  shows "read_loop start end st (concat (map line_text hs)) = run_lines start end hs st"
  using assms
proof (induction hs arbitrary: st)
  case Nil
  then show ?case by (subst read_loop.simps) (simp add: fgets_Nil)
next
  case (Cons h hs)
  then have wf: "wf_line h" and ext: "ext_ok h" by simp_all
  define st1 where "st1 = st\<lparr>line := line_text h @ NUL # drop (Suc (length (line_text h))) (line st)\<rparr>"
  have rb: "read_body start end st1 = line_effect start end h st1"
    by (rule read_body_wf [OF wf ext]) (simp add: st1_def)
  have "read_loop start end st (concat (map line_text (h # hs))) =
      (case read_body start end st1 of Inl e \<Rightarrow> Inl e
       | Inr st' \<Rightarrow> read_loop start end st' (concat (map line_text hs)))"
    by (subst read_loop.simps) (simp add: fgets_line_text [OF wf] st1_def)
  also have "\<dots> = (case line_effect start end h st1 of Inl e \<Rightarrow> Inl e
       | Inr st' \<Rightarrow> read_loop start end st' (concat (map line_text hs)))"
    by (simp only: rb)
  also have "\<dots> = (case line_effect start end h st1 of Inl e \<Rightarrow> Inl e
       | Inr st' \<Rightarrow> run_lines start end hs st')"
    using Cons.IH Cons.prems by (cases "line_effect start end h st1") simp_all
  also have "\<dots> = run_lines start end (h # hs) st"
    by (simp add: st1_def)
  finally show ?case .
qed

lemma line_effect_line:
  "map_sum id erase (line_effect start end h (st\<lparr>line := l\<rparr>)) = map_sum id erase (line_effect start end h st)"
  by (simp add: line_effect_def Let_def erase_def)

lemma line_effect_erase:
  "erase st = erase st' \<Longrightarrow>
   map_sum id erase (line_effect start end h st) = map_sum id erase (line_effect start end h st')"
proof -
  assume "erase st = erase st'"
  then have "st' = st\<lparr>line := line st'\<rparr>"
    by (cases st; cases st') (simp add: erase_def)
  then show ?thesis using line_effect_line [where st = st and l = "line st'"] by simp
qed

lemma line_effect_same: "same_but_cks h h' \<Longrightarrow> line_effect start end h = line_effect start end h'"
  by (rule ext) (simp add: line_effect_def same_but_cks_def Let_def)

lemma run_lines_same:
  assumes "list_all2 same_but_cks hs hs'" "erase st = erase st'"
  shows "map_sum id erase (run_lines start end hs st) = map_sum id erase (run_lines start end hs' st')"
  using assms
proof (induction hs hs' arbitrary: st st' rule: list_all2_induct)
  case Nil
  then show ?case by simp
next
  case (Cons h hs h' hs')
  define s1 where "s1 = st\<lparr>line := line_text h @ NUL # drop (Suc (length (line_text h))) (line st)\<rparr>"
  define s1' where "s1' = st'\<lparr>line := line_text h' @ NUL # drop (Suc (length (line_text h'))) (line st')\<rparr>"
  have "erase s1 = erase s1'"
    using Cons.prems by (cases st; cases st') (simp add: erase_def s1_def s1'_def)
  from line_effect_erase [OF this, of start "end" h]
  have le: "map_sum id erase (line_effect start end h s1) = map_sum id erase (line_effect start end h' s1')"
    by (simp add: line_effect_same [OF Cons.hyps(1)])
  show ?case
  proof (cases "line_effect start end h s1")
    case (Inl e)
    with le obtain e' where "line_effect start end h' s1' = Inl e'" "e' = e"
      by (cases "line_effect start end h' s1'") auto
    with Inl show ?thesis by (simp add: s1_def s1'_def)
  next
    case (Inr t)
    with le obtain t' where t': "line_effect start end h' s1' = Inr t'" "erase t = erase t'"
      by (cases "line_effect start end h' s1'") auto
    from Cons.IH [OF t'(2)] Inr t'(1) show ?thesis by (simp add: s1_def s1'_def)
  qed
qed

lemma ihex_read_erase:
  "ihex_read file b start end =
     (case map_sum id erase (read_loop start end
             \<lparr>line = replicate 523 NUL, line_no = 0, greatest_addr = 0, offset = 0, buf = b\<rparr> file) of
        Inl e \<Rightarrow> Inl e
      | Inr st \<Rightarrow> Inr (sint (greatest_addr st - start), buf st))"
  by (simp add: ihex_read_def erase_def split: sum.splits)

lemma ext_ok_same: "same_but_cks h h' \<Longrightarrow> ext_ok h = ext_ok h'"
  by (simp add: ext_ok_def same_but_cks_def)

text \<open>
  C9, as the specification states it: two texts that differ only in the checksum
  digits of their records are read alike. They are not when a record of type 04 (or
  02) has fewer than two data bytes: the four digits read at column 9 then take in
  the checksum. Here a record of type 04 with no data and the checksum 00, or 01, is
  followed by a data record of one byte.
\<close>

theorem checksum_ignored_counterexample:
  "list_all wf_line [HexLine ''00'' ''0000'' ''04'' [] ''00'', HexLine ''01'' ''0000'' ''00'' ''11'' ''EE'']
   \<and> list_all wf_line [HexLine ''00'' ''0000'' ''04'' [] ''01'', HexLine ''01'' ''0000'' ''00'' ''11'' ''EE'']
   \<and> list_all2 same_but_cks
         [HexLine ''00'' ''0000'' ''04'' [] ''00'', HexLine ''01'' ''0000'' ''00'' ''11'' ''EE'']
         [HexLine ''00'' ''0000'' ''04'' [] ''01'', HexLine ''01'' ''0000'' ''00'' ''11'' ''EE'']
   \<and> outcome (ihex_read (concat (map line_text
           [HexLine ''00'' ''0000'' ''04'' [] ''00'', HexLine ''01'' ''0000'' ''00'' ''11'' ''EE'']))
         (mem_of []) 0 0x20000) 1 = Inr (1, [0x11])
   \<and> outcome (ihex_read (concat (map line_text
           [HexLine ''00'' ''0000'' ''04'' [] ''01'', HexLine ''01'' ''0000'' ''00'' ''11'' ''EE'']))
         (mem_of []) 0 0x20000) 1 = Inr (65537, [0])"
  by code_simp

text \<open>
  C9, amended: two texts made of records \<open>:LLAAAATT\<close>, \<open>LL\<close> data bytes, a checksum
  and a newline, all in hexadecimal digits, in which every record of type 02 or 04 has
  at least two data bytes, and which differ only in the checksum digits, are read
  alike: the same buffer and the same returned value, or the same message.
\<close>

theorem checksum_ignored:
  assumes "list_all wf_line hs" and "list_all wf_line hs'" and "list_all ext_ok hs"
    and "list_all2 same_but_cks hs hs'"
  shows "ihex_read (concat (map line_text hs)) b start end
       = ihex_read (concat (map line_text hs')) b start end"
proof -
  have "list_all2 same_but_cks hs hs' \<Longrightarrow> list_all ext_ok hs \<Longrightarrow> list_all ext_ok hs'"
    by (induction hs hs' rule: list_all2_induct) (auto simp: ext_ok_same)
  then have e': "list_all ext_ok hs'" using assms(3,4) by simp
  show ?thesis
    unfolding ihex_read_erase read_loop_lines [OF assms(1,3)] read_loop_lines [OF assms(2) e']
    using run_lines_same [OF assms(4) refl] by simp
qed

theorem checksum_ignored_witness:
  "list_all wf_line [HexLine ''02'' ''0000'' ''04'' ''0001'' ''F9'', HexLine ''01'' ''0000'' ''00'' ''11'' ''EE'']
   \<and> list_all wf_line [HexLine ''02'' ''0000'' ''04'' ''0001'' ''00'', HexLine ''01'' ''0000'' ''00'' ''11'' ''12'']
   \<and> list_all ext_ok [HexLine ''02'' ''0000'' ''04'' ''0001'' ''F9'', HexLine ''01'' ''0000'' ''00'' ''11'' ''EE'']
   \<and> list_all2 same_but_cks
         [HexLine ''02'' ''0000'' ''04'' ''0001'' ''F9'', HexLine ''01'' ''0000'' ''00'' ''11'' ''EE'']
         [HexLine ''02'' ''0000'' ''04'' ''0001'' ''00'', HexLine ''01'' ''0000'' ''00'' ''11'' ''12'']
   \<and> ihex_read (concat (map line_text
           [HexLine ''02'' ''0000'' ''04'' ''0001'' ''F9'', HexLine ''01'' ''0000'' ''00'' ''11'' ''EE'']))
         (mem_of []) 0x10000 0x10001
     = ihex_read (concat (map line_text
           [HexLine ''02'' ''0000'' ''04'' ''0001'' ''00'', HexLine ''01'' ''0000'' ''00'' ''11'' ''12'']))
         (mem_of []) 0x10000 0x10001"
proof -
  have 1: "list_all wf_line [HexLine ''02'' ''0000'' ''04'' ''0001'' ''F9'', HexLine ''01'' ''0000'' ''00'' ''11'' ''EE'']"
    by code_simp
  have 2: "list_all wf_line [HexLine ''02'' ''0000'' ''04'' ''0001'' ''00'', HexLine ''01'' ''0000'' ''00'' ''11'' ''12'']"
    by code_simp
  have 3: "list_all ext_ok [HexLine ''02'' ''0000'' ''04'' ''0001'' ''F9'', HexLine ''01'' ''0000'' ''00'' ''11'' ''EE'']"
    by code_simp
  have 4: "list_all2 same_but_cks
         [HexLine ''02'' ''0000'' ''04'' ''0001'' ''F9'', HexLine ''01'' ''0000'' ''00'' ''11'' ''EE'']
         [HexLine ''02'' ''0000'' ''04'' ''0001'' ''00'', HexLine ''01'' ''0000'' ''00'' ''11'' ''12'']"
    by (simp add: same_but_cks_def)
  show ?thesis using 1 2 3 4 checksum_ignored [OF 1 2 3 4] by blast
qed

subsection \<open>The records of ihex_write\<close>

lemma length_word_upt: "length (word_upt a b) = unat b - unat a"
  by (simp add: word_upt_def)

lemma chunk_range:
  assumes "start \<le> chunk_start" "chunk_start < end"
  shows "unat (chunk_start - start) = unat chunk_start - unat start"
    and "unat (chunk_start + chunk_len_of end chunk_start - start)
           = unat chunk_start - unat start + unat (chunk_len_of end chunk_start)"
proof -
  have le: "unat start \<le> unat chunk_start" using assms(1) by (simp add: word_le_nat_alt)
  show "unat (chunk_start - start) = unat chunk_start - unat start"
    using assms(1) by (simp add: unat_sub)
  have "unat (chunk_start + chunk_len_of end chunk_start)
          = unat chunk_start + unat (chunk_len_of end chunk_start)"
    by (rule chunk_advance [OF assms(2)])
  moreover from this have "start \<le> chunk_start + chunk_len_of end chunk_start"
    using le by (simp add: word_le_nat_alt)
  ultimately show "unat (chunk_start + chunk_len_of end chunk_start - start)
           = unat chunk_start - unat start + unat (chunk_len_of end chunk_start)"
    using le by (simp add: unat_sub)
qed

lemma write_loop_step:
  "chunk_start < end \<Longrightarrow>
   write_loop src start end cur_ela chunk_start =
     (if cur_ela \<noteq> drop_bit 16 chunk_start
      then [Ela (drop_bit 16 chunk_start)
              (checksum [ucast (HI (drop_bit 16 chunk_start)), ucast (LO (drop_bit 16 chunk_start))] 2 0 4)]
      else [])
     @ Data (chunk_len_of end chunk_start) chunk_start
         (map src (word_upt (chunk_start - start) (chunk_start + chunk_len_of end chunk_start - start)))
         (checksum (bytes_at src (chunk_start - start) (chunk_len_of end chunk_start))
            (chunk_len_of end chunk_start) chunk_start 0)
     # write_loop src start end (drop_bit 16 chunk_start) (chunk_start + chunk_len_of end chunk_start)"
  by (subst write_loop.simps) (simp add: Let_def)

lemma write_loop_done:
  "\<not> chunk_start < end \<Longrightarrow> write_loop src start end cur_ela chunk_start = []"
  by (subst write_loop.simps) simp

lemma chunk_next_le:
  assumes "start \<le> chunk_start" "chunk_start < end"
  shows "start \<le> chunk_start + chunk_len_of end chunk_start"
  using assms chunk_advance [OF assms(2)] by (simp add: word_le_nat_alt)

lemma write_loop_chunk_ok:
  "start \<le> chunk_start \<Longrightarrow> \<forall>r \<in> set (write_loop src start end cur_ela chunk_start). chunk_ok r"
proof (induction src start "end" cur_ela chunk_start rule: write_loop.induct)
  case (1 src start "end" cur_ela chunk_start)
  show ?case
  proof (cases "chunk_start < end")
    case True
    have ih: "\<forall>r \<in> set (write_loop src start end (drop_bit 16 chunk_start)
                 (chunk_start + chunk_len_of end chunk_start)). chunk_ok r"
      by (rule "1.IH" [OF True refl refl refl refl]) (rule chunk_next_le [OF "1.prems" True])
    have d: "chunk_ok (Data (chunk_len_of end chunk_start) chunk_start
         (map src (word_upt (chunk_start - start) (chunk_start + chunk_len_of end chunk_start - start)))
         (checksum (bytes_at src (chunk_start - start) (chunk_len_of end chunk_start))
            (chunk_len_of end chunk_start) chunk_start 0))"
      using chunk_len_of_bounds(3,4) [OF True] chunk_range [OF "1.prems" True]
      by (simp add: length_word_upt)
    show ?thesis
      unfolding write_loop_step [OF True] using ih d by auto
  next
    case False
    then show ?thesis by (simp add: write_loop_done)
  qed
qed

text \<open>
  C6: every data record that \<open>ihex_write\<close> writes has a length of at most 32 bytes and
  as many bytes, and from its address on does not go past the end of its 64 KiB page,
  whatever \<open>start\<close>, \<open>end\<close> and the buffer are.
\<close>

theorem chunks_bounded:
  "\<forall>r \<in> set (ihex_write_records src start end). chunk_ok r"
  using write_loop_chunk_ok [of start start src "end"] by (simp add: ihex_write_records_def Let_def)

theorem chunks_bounded_witness:
  "Data 32 0xFFD0 (replicate 32 0) 0x11 \<in> set (ihex_write_records (mem_of []) 0xFFD0 0x10010)
   \<and> Data 16 0xFFF0 (replicate 16 0) 0x01 \<in> set (ihex_write_records (mem_of []) 0xFFD0 0x10010)
   \<and> chunk_ok (Data 32 0xFFD0 (replicate 32 0) 0x11) \<and> chunk_ok (Data 16 0xFFF0 (replicate 16 0) 0x01)"
proof -
  have 1: "Data 32 0xFFD0 (replicate 32 0) 0x11 \<in> set (ihex_write_records (mem_of []) 0xFFD0 0x10010)"
    by code_simp
  have 2: "Data 16 0xFFF0 (replicate 16 0) 0x01 \<in> set (ihex_write_records (mem_of []) 0xFFD0 0x10010)"
    by code_simp
  show ?thesis
    using 1 2 chunks_bounded [of "mem_of []" "0xFFD0" "0x10010"] by blast
qed

lemma unat_page: "unat (drop_bit 16 (x :: u32)) = unat x div 65536"
  by (subst unat_drop_bit_eq) (simp add: drop_bit_eq_div)

lemma page_le: "unat (drop_bit 16 (x :: u32)) \<le> 65535"
proof -
  have "unat x < 2 ^ 32" using unsigned_less [of x, where ?'a = nat] by simp
  then show ?thesis by (simp add: unat_page)
qed

lemma page_not_minus_one: "(- 1 :: u32) \<noteq> drop_bit 16 (x :: u32)"
proof
  assume "(- 1 :: u32) = drop_bit 16 x"
  then have "unat (- 1 :: u32) = unat (drop_bit 16 x)" by simp
  moreover have "unat (- 1 :: u32) = 4294967295"
    by (simp add: unsigned_minus_1_eq_mask mask_eq_exp_minus_1)
  ultimately show False using page_le [of x] by simp
qed

lemma page_mono:
  assumes "chunk_start < end"
  shows "drop_bit 16 chunk_start \<le> drop_bit 16 (chunk_start + chunk_len_of end chunk_start)"
  using chunk_advance [OF assms]
  by (simp add: word_le_nat_alt unat_page div_le_mono)

lemma write_loop_ela_placed:
  assumes "\<forall>q \<in> set seen. q \<le> drop_bit 16 chunk_start"
    and "drop_bit 16 chunk_start \<in> set seen \<longleftrightarrow> cur_ela = drop_bit 16 chunk_start"
  shows "ela_placed seen (write_loop src start end cur_ela chunk_start @ [Eof])"
  using assms
proof (induction src start "end" cur_ela chunk_start arbitrary: seen rule: write_loop.induct)
  case (1 src start "end" cur_ela chunk_start)
  show ?case
  proof (cases "chunk_start < end")
    case False
    then show ?thesis by (simp add: write_loop_done)
  next
    case True
    define p where "p = drop_bit 16 chunk_start"
    define nxt where "nxt = chunk_start + chunk_len_of end chunk_start"
    have mono: "p \<le> drop_bit 16 nxt" unfolding p_def nxt_def by (rule page_mono [OF True])
    have ih: "ela_placed seen' (write_loop src start end p nxt @ [Eof])"
      if "\<forall>q \<in> set seen'. q \<le> drop_bit 16 nxt"
        and "drop_bit 16 nxt \<in> set seen' \<longleftrightarrow> p = drop_bit 16 nxt" for seen'
      unfolding p_def nxt_def
      by (rule "1.IH" [OF True refl refl refl refl]) (use that in \<open>simp_all add: p_def nxt_def\<close>)
    show ?thesis
    proof (cases "cur_ela = p")
      case True
      then have in_seen: "p \<in> set seen" using "1.prems"(2) by (simp add: p_def)
      have "ela_placed seen (write_loop src start end p nxt @ [Eof])"
      proof (rule ih)
        show "\<forall>q \<in> set seen. q \<le> drop_bit 16 nxt"
          using "1.prems"(1) mono by (auto simp: p_def)
        show "drop_bit 16 nxt \<in> set seen \<longleftrightarrow> p = drop_bit 16 nxt"
          using "1.prems"(1) mono in_seen by (auto simp: p_def)
      qed
      then show ?thesis
        using True in_seen unfolding write_loop_step [OF \<open>chunk_start < end\<close>]
        by (simp add: p_def nxt_def)
    next
      case False
      then have not_seen: "p \<notin> set seen" using "1.prems"(2) by (simp add: p_def)
      have "ela_placed (p # seen) (write_loop src start end p nxt @ [Eof])"
      proof (rule ih)
        show "\<forall>q \<in> set (p # seen). q \<le> drop_bit 16 nxt"
          using "1.prems"(1) mono by (auto simp: p_def)
        show "drop_bit 16 nxt \<in> set (p # seen) \<longleftrightarrow> p = drop_bit 16 nxt"
          using "1.prems"(1) mono by (auto simp: p_def)
      qed
      then show ?thesis
        using False not_seen unfolding write_loop_step [OF \<open>chunk_start < end\<close>]
        by (simp add: p_def nxt_def)
    qed
  qed
qed

lemma write_loop_no_ela:
  "end \<le> 65535 \<Longrightarrow> cur_ela = 0 \<Longrightarrow>
   \<forall>r \<in> set (write_loop src start end cur_ela chunk_start). \<not> is_Ela r"
proof (induction src start "end" cur_ela chunk_start rule: write_loop.induct)
  case (1 src start "end" cur_ela chunk_start)
  show ?case
  proof (cases "chunk_start < end")
    case False
    then show ?thesis by (simp add: write_loop_done)
  next
    case True
    then have "unat chunk_start < 65536"
      using "1.prems"(1) by (simp add: word_less_nat_alt word_le_nat_alt)
    then have "unat (drop_bit 16 chunk_start) = 0" by (simp add: unat_page)
    then have p: "drop_bit 16 chunk_start = 0" by (simp add: unat_eq_0)
    have "\<forall>r \<in> set (write_loop src start end (drop_bit 16 chunk_start)
                 (chunk_start + chunk_len_of end chunk_start)). \<not> is_Ela r"
      by (rule "1.IH" [OF True refl refl refl refl "1.prems"(1) p])
    then show ?thesis
      unfolding write_loop_step [OF True] using p "1.prems"(2) by simp
  qed
qed

text \<open>
  C5, as the specification states it: no record of type 04 is written when the whole
  range lies in one 64 KiB page. The range 0x10000 to 0x10003 lies in page 1, and the
  record of type 04 for page 1 is written.
\<close>

theorem ela_records_counterexample:
  "drop_bit 16 (0x10000 :: u32) = drop_bit 16 (0x10003 - 1 :: u32)
   \<and> ihex_write_records (mem_of []) 0x10000 0x10003 = [Ela 1 0xF9, Data 3 0x10000 [0, 0, 0] 0xFD, Eof]"
  by code_simp

text \<open>
  C5, amended: when \<open>end\<close> is above 65535, \<open>ihex_write\<close> writes one record of type 04
  immediately before the first data record of each 64 KiB page it writes into, the
  first page included, and no other record of type 04; when \<open>end\<close> is at most 65535, it
  writes no record of type 04.
\<close>

theorem ela_records:
  "(65535 < end \<longrightarrow> ela_placed [] (ihex_write_records src start end))
   \<and> (end \<le> 65535 \<longrightarrow> (\<forall>r \<in> set (ihex_write_records src start end). \<not> is_Ela r))"
proof (intro conjI impI)
  assume "65535 < end"
  then show "ela_placed [] (ihex_write_records src start end)"
    using write_loop_ela_placed [of "[]" start "- 1" src start "end"] page_not_minus_one [of start]
    by (simp add: ihex_write_records_def Let_def)
next
  assume le: "end \<le> 65535"
  then have "\<not> 65535 < end" by simp
  then show "\<forall>r \<in> set (ihex_write_records src start end). \<not> is_Ela r"
    using write_loop_no_ela [OF le refl, of src start start]
    by (simp add: ihex_write_records_def Let_def)
qed

theorem ela_records_witness:
  "(65535 :: u32) < 0x10002 \<and> ela_placed [] (ihex_write_records (mem_of []) 0xFFFE 0x10002)
   \<and> Ela 1 0xF9 \<in> set (ihex_write_records (mem_of []) 0xFFFE 0x10002)
   \<and> (0x100 :: u32) \<le> 65535 \<and> Data 0x20 0x10 (replicate 32 0) 0xD0 \<in> set (ihex_write_records (mem_of []) 0x10 0x100)
   \<and> \<not> is_Ela (Data 0x20 0x10 (replicate 32 0) 0xD0)"
proof -
  have 1: "(65535 :: u32) < 0x10002" by simp
  have 2: "(0x100 :: u32) \<le> 65535" by simp
  have 3: "Ela 1 0xF9 \<in> set (ihex_write_records (mem_of []) 0xFFFE 0x10002)" by code_simp
  have 4: "Data 0x20 0x10 (replicate 32 0) 0xD0 \<in> set (ihex_write_records (mem_of []) 0x10 0x100)"
    by code_simp
  show ?thesis
    using 1 2 3 4 ela_records [of "0x10002" "mem_of []" "0xFFFE"] ela_records [of "0x100" "mem_of []" "0x10"]
    by blast
qed

subsection \<open>The checksums of the records written\<close>

lemma hex_pairs_hexn2: "hex_pairs (hexn 2 n @ rest) = (n mod 256) # hex_pairs rest"
proof -
  have "16 * (n div 16 mod 16) + n mod 16 = n mod 256"
    using mod_mult2_eq [of n 16 16] by simp
  moreover have 2: "(2 :: nat) = Suc (Suc 0)" by simp
  ultimately show ?thesis
    unfolding 2 by (simp add: xdigit_hexchar)
qed

lemma hexn4: "hexn 4 n = hexn 2 (n div 256) @ hexn 2 n"
proof -
  have 4: "(4 :: nat) = Suc (Suc (Suc (Suc 0)))" and 2: "(2 :: nat) = Suc (Suc 0)" by simp_all
  have d: "n div 16 div 16 = n div 256" "n div 16 div 16 div 16 = n div 256 div 16"
    by (simp_all add: div_mult2_eq [symmetric])
  show ?thesis
    unfolding 4 2 by (simp add: d)
qed

lemma fmt_X_2: "unat x < 256 \<Longrightarrow> fmt_X 2 x = hexn 2 (unat x)"
  using fmt_X_hexn [of x 1] by (simp add: numeral_2_eq_2)

lemma fmt_X_4: "unat x < 65536 \<Longrightarrow> fmt_X 4 x = hexn 4 (unat x)"
  using fmt_X_hexn [of x 3] by simp

lemma unat_u8_less: "unat (b :: u8) < 256"
  using unsigned_less [of b, where ?'a = nat] by simp

lemma unat_ucast_8_32_less: "unat (ucast (b :: u8) :: u32) < 256"
  by (simp add: unat_ucast_8_32 unat_u8_less)

lemma hex_pairs_fmt2: "unat x < 256 \<Longrightarrow> hex_pairs (fmt_X 2 x @ rest) = unat x # hex_pairs rest"
  by (simp add: fmt_X_2 hex_pairs_hexn2 del: hexn.simps)

lemma hex_pairs_fmt4:
  "unat x < 65536 \<Longrightarrow>
   hex_pairs (fmt_X 4 x @ rest) = (unat x div 256) # (unat x mod 256) # hex_pairs rest"
  by (simp add: fmt_X_4 hexn4 hex_pairs_hexn2 del: hexn.simps)

lemma hex_pairs_bytes:
  "hex_pairs (concat (map (\<lambda>b. fmt_X 2 (ucast b)) bs) @ rest) = map unat (bs :: u8 list) @ hex_pairs rest"
proof (induction bs)
  case Nil
  then show ?case by simp
next
  case (Cons b bs)
  have "hex_pairs (fmt_X 2 (ucast b) @ (concat (map (\<lambda>b. fmt_X 2 (ucast b)) bs) @ rest))
      = unat b # hex_pairs (concat (map (\<lambda>b. fmt_X 2 (ucast b)) bs) @ rest)"
    using hex_pairs_fmt2 [OF unat_ucast_8_32_less] by (simp add: unat_ucast_8_32)
  then show ?case using Cons.IH by simp
qed

lemma hex_pairs_newline: "hex_pairs [CHR 0x0A] = []"
  by simp

lemma unat_LO: "unat (LO x) = unat x mod 256"
proof -
  have "x AND 0xff = take_bit 8 x" by (simp add: take_bit_eq_mask mask_eq_exp_minus_1)
  then show ?thesis unfolding LO_def by (simp add: take_bit_eq_mod unat_mod)
qed

lemma unat_HI: "unat (HI x) = unat x div 256 mod 256"
proof -
  have h: "(0xff00 :: u32) = push_bit 8 (mask 8)"
    by (simp add: mask_eq_exp_minus_1 push_bit_eq_mult)
  have "drop_bit 8 (x AND 0xff00) = take_bit 8 (drop_bit 8 x)"
    unfolding h by (rule bit_word_eqI) (simp only: bit_simps o_def, auto simp: ac_simps)
  then show ?thesis
    unfolding HI_def by (simp add: take_bit_eq_mod drop_bit_eq_div unat_mod unat_div)
qed

lemma unat_ucast_32_8: "unat (ucast (w :: u32) :: u8) = unat w mod 256"
  by (simp add: unsigned_ucast_eq take_bit_eq_mod)

lemma unat_and_ffff: "unat ((x :: u32) AND 0xffff) = unat x mod 65536"
proof -
  have "x AND 0xffff = take_bit 16 x" by (simp add: take_bit_eq_mask mask_eq_exp_minus_1)
  then show ?thesis by (simp add: take_bit_eq_mod unat_mod)
qed

lemma hex_pairs_byte: "hex_pairs (fmt_X 2 (ucast (b :: u8)) @ rest) = unat b # hex_pairs rest"
  using hex_pairs_fmt2 [OF unat_ucast_8_32_less] by (simp add: unat_ucast_8_32)

lemma line_sum_Eof: "line_sum (render Eof) = 256"
  by (simp add: line_sum_def xdigit_def)

lemma line_sum_Ela:
  assumes "unat p < 65536"
  shows "line_sum (render (Ela p (checksum [ucast (HI p), ucast (LO p)] 2 0 4))) mod 256 = 0"
proof -
  define c where "c = checksum [ucast (HI p), ucast (LO p)] 2 0 4"
  have hp: "hex_pairs (''02000004'' @ rest) = 2 # 0 # 0 # 4 # hex_pairs rest" for rest
    by (simp add: xdigit_def)
  have "line_sum (render (Ela p c)) = sum_list (hex_pairs (''02000004'' @ fmt_X 4 p @ fmt_X 2 (ucast c) @ [CHR 0x0A]))"
    by (simp add: line_sum_def)
  also have "\<dots> = 2 + 0 + 0 + 4 + unat p div 256 + unat p mod 256 + unat c"
    unfolding hp using assms
    by (simp add: hex_pairs_fmt4 hex_pairs_byte)
  finally have s: "line_sum (render (Ela p c)) = 2 + 0 + 0 + 4 + unat p div 256 + unat p mod 256 + unat c" .
  have "unat p div 256 < 256" using assms by simp
  then have "(unat (2 :: u32) + unat (LO 0) + unat (HI 0) + unat (4 :: u32)
      + sum_list (map unat [ucast (HI p) :: u8, ucast (LO p)]) + unat c) = line_sum (render (Ela p c))"
    unfolding s by (simp add: unat_ucast_32_8 unat_LO unat_HI)
  then show ?thesis
    using checksum_sum [of 2 0 4 "[ucast (HI p), ucast (LO p)]"] by (simp add: c_def)
qed

lemma line_sum_Data:
  assumes "unat chunk_len < 256"
  shows "line_sum (render (Data chunk_len chunk_start bs (checksum bs chunk_len chunk_start 0))) mod 256 = 0"
proof -
  define c where "c = checksum bs chunk_len chunk_start 0"
  define m where "m = unat (chunk_start AND 0xffff)"
  have m: "m < 65536" using and_ffff_le [of chunk_start] by (simp add: m_def)
  have hp: "hex_pairs (CHR ''0'' # CHR ''0'' # rest) = 0 # hex_pairs rest" for rest
    by (simp add: xdigit_def)
  have "line_sum (render (Data chunk_len chunk_start bs c)) = sum_list (hex_pairs
      (fmt_X 2 chunk_len @ fmt_X 4 (chunk_start AND 0xffff) @ ''00''
       @ concat (map (\<lambda>b. fmt_X 2 (ucast b)) bs) @ fmt_X 2 (ucast c) @ [CHR 0x0A]))"
    by (simp add: line_sum_def)
  also have "\<dots> = unat chunk_len + m div 256 + m mod 256 + 0 + sum_list (map unat bs) + unat c"
    using assms m
    by (simp add: hex_pairs_fmt2 hex_pairs_fmt4 hp hex_pairs_bytes hex_pairs_byte m_def
        hex_pairs_newline del: hex_pairs.simps)
  finally have s: "line_sum (render (Data chunk_len chunk_start bs c))
      = unat chunk_len + m div 256 + m mod 256 + 0 + sum_list (map unat bs) + unat c" .
  have "unat chunk_start mod 65536 div 256 = unat chunk_start div 256 mod 256"
    using mod_mult2_eq [of "unat chunk_start" 256 256] by simp
  then have "m div 256 = unat (HI chunk_start)" "m mod 256 = unat (LO chunk_start)"
    by (simp_all add: m_def unat_and_ffff unat_HI unat_LO mod_mod_cancel)
  then have "unat chunk_len + unat (LO chunk_start) + unat (HI chunk_start) + unat (0 :: u32)
      + sum_list (map unat bs) + unat c = line_sum (render (Data chunk_len chunk_start bs c))"
    unfolding s by simp
  then show ?thesis
    using checksum_sum [of chunk_len chunk_start 0 bs] by (simp add: c_def)
qed

lemma bytes_at_word_upt:
  assumes "unat a + unat n < 2 ^ 32"
  shows "bytes_at src a n = map src (word_upt a (a + n))"
proof -
  have u: "unat (a + n) = unat a + unat n"
    using assms by (simp add: unat_word_ariths)
  have "[unat a ..< unat a + unat n] = map (\<lambda>i. i + unat a) [0 ..< unat n]"
    by (simp add: map_add_upt add.commute)
  then have "word_upt a (a + n) = map (\<lambda>i. a + of_nat i) [0 ..< unat n]"
    by (simp add: word_upt_def u o_def add.commute)
  then show ?thesis by (simp add: bytes_at_def o_def)
qed

lemma chunk_bytes_at:
  assumes "start \<le> chunk_start" "chunk_start < end"
  shows "bytes_at src (chunk_start - start) (chunk_len_of end chunk_start)
       = map src (word_upt (chunk_start - start) (chunk_start + chunk_len_of end chunk_start - start))"
proof -
  have "unat chunk_start + unat (chunk_len_of end chunk_start) \<le> unat end"
    by (rule chunk_len_of_bounds(2) [OF assms(2)])
  moreover have "unat end < 2 ^ 32" using unsigned_less [of "end", where ?'a = nat] by simp
  ultimately have "unat (chunk_start - start) + unat (chunk_len_of end chunk_start) < 2 ^ 32"
    using chunk_range(1) [OF assms] by simp
  from bytes_at_word_upt [OF this]
  show ?thesis by (simp add: add_diff_eq diff_add_eq)
qed

lemma write_loop_sums:
  "start \<le> chunk_start \<Longrightarrow>
   \<forall>r \<in> set (write_loop src start end cur_ela chunk_start). line_sum (render r) mod 256 = 0"
proof (induction src start "end" cur_ela chunk_start rule: write_loop.induct)
  case (1 src start "end" cur_ela chunk_start)
  show ?case
  proof (cases "chunk_start < end")
    case True
    have ih: "\<forall>r \<in> set (write_loop src start end (drop_bit 16 chunk_start)
                 (chunk_start + chunk_len_of end chunk_start)). line_sum (render r) mod 256 = 0"
      by (rule "1.IH" [OF True refl refl refl refl]) (rule chunk_next_le [OF "1.prems" True])
    have "unat (chunk_len_of end chunk_start) < 256"
      using chunk_len_of_bounds(3) [OF True] by simp
    then have d: "line_sum (render (Data (chunk_len_of end chunk_start) chunk_start
         (map src (word_upt (chunk_start - start) (chunk_start + chunk_len_of end chunk_start - start)))
         (checksum (bytes_at src (chunk_start - start) (chunk_len_of end chunk_start))
            (chunk_len_of end chunk_start) chunk_start 0))) mod 256 = 0"
      unfolding chunk_bytes_at [OF "1.prems" True] by (rule line_sum_Data)
    have "unat (drop_bit 16 chunk_start) < 65536"
      using page_le [of chunk_start] by simp
    then have e: "line_sum (render (Ela (drop_bit 16 chunk_start)
              (checksum [ucast (HI (drop_bit 16 chunk_start)), ucast (LO (drop_bit 16 chunk_start))] 2 0 4)))
              mod 256 = 0"
      by (rule line_sum_Ela)
    show ?thesis
      unfolding write_loop_step [OF True] using ih d e by auto
  next
    case False
    then show ?thesis by (simp add: write_loop_done)
  qed
qed

text \<open>
  C3: for all bytes, length, address and type, the length, the two bytes of the address,
  the type, the bytes and the checksum that \<open>checksum\<close> returns add up to 0 modulo 256;
  and so do the bytes of every line that \<open>ihex_write\<close> writes, whether of type 04, data or
  end of file.
\<close>

theorem checksum_sums_to_zero:
  "(unat chunk_len + unat (LO chunk_addr) + unat (HI chunk_addr) + unat chunk_type
      + sum_list (map unat bs) + unat (checksum bs chunk_len chunk_addr chunk_type)) mod 256 = 0
   \<and> (\<forall>r \<in> set (ihex_write_records src start end). line_sum (render r) mod 256 = 0)"
proof
  show "(unat chunk_len + unat (LO chunk_addr) + unat (HI chunk_addr) + unat chunk_type
      + sum_list (map unat bs) + unat (checksum bs chunk_len chunk_addr chunk_type)) mod 256 = 0"
    by (rule checksum_sum)
  show "\<forall>r \<in> set (ihex_write_records src start end). line_sum (render r) mod 256 = 0"
    using write_loop_sums [of start start src "end"] line_sum_Eof
    by (simp add: ihex_write_records_def Let_def del: render.simps)
qed

theorem checksum_sums_to_zero_witness:
  "Data 3 0 [0x11, 0x22, 0x33] 0x97 \<in> set (ihex_write_records (mem_of [0x11, 0x22, 0x33]) 0 3)
   \<and> render (Data 3 0 [0x11, 0x22, 0x33] 0x97) = '':0300000011223397\<newline>''
   \<and> line_sum '':0300000011223397\<newline>'' mod 256 = 0
   \<and> Ela 1 0xF9 \<in> set (ihex_write_records (mem_of [0x11, 0x22, 0x33]) 0x10000 0x10003)
   \<and> render (Ela 1 0xF9) = '':020000040001F9\<newline>''
   \<and> line_sum '':020000040001F9\<newline>'' mod 256 = 0"
proof -
  have 1: "Data 3 0 [0x11, 0x22, 0x33] 0x97 \<in> set (ihex_write_records (mem_of [0x11, 0x22, 0x33]) 0 3)"
    by code_simp
  have 2: "render (Data 3 0 [0x11, 0x22, 0x33] 0x97) = '':0300000011223397\<newline>''"
    by code_simp
  have 3: "Ela 1 0xF9 \<in> set (ihex_write_records (mem_of [0x11, 0x22, 0x33]) 0x10000 0x10003)"
    by code_simp
  have 4: "render (Ela 1 0xF9) = '':020000040001F9\<newline>''"
    by code_simp
  from checksum_sums_to_zero [of 0 0 0 "[]" "mem_of [0x11, 0x22, 0x33]" 0 3] 1
  have "line_sum (render (Data 3 0 [0x11, 0x22, 0x33] 0x97)) mod 256 = 0"
    by blast
  then have 5: "line_sum '':0300000011223397\<newline>'' mod 256 = 0"
    by (simp only: 2)
  from checksum_sums_to_zero [of 0 0 0 "[]" "mem_of [0x11, 0x22, 0x33]" "0x10000" "0x10003"] 3
  have "line_sum (render (Ela 1 0xF9)) mod 256 = 0"
    by blast
  then have 6: "line_sum '':020000040001F9\<newline>'' mod 256 = 0"
    by (simp only: 4)
  show ?thesis by (intro conjI 1 2 3 4 5 6)
qed

subsection \<open>Records outside the window\<close>

lemma read_line_append:
  "pre \<noteq> [] \<Longrightarrow> last pre = CHR 0x0A \<Longrightarrow> read_line n (pre @ rest) = read_line n pre"
proof (induction n pre rule: read_line.induct)
  case (1 s)
  then show ?case by simp
next
  case (2 n)
  then show ?case by simp
next
  case (3 n c cs)
  show ?case
  proof (cases "c = CHR 0x0A")
    case True
    then show ?thesis by simp
  next
    case False
    then have "cs \<noteq> []" using "3.prems" by auto
    then show ?thesis using "3.IH" "3.prems" False by simp
  qed
qed

lemma fgets_append:
  assumes "pre \<noteq> []" "last pre = CHR 0x0A" "fgets ln 523 pre = Some (ln', pre')"
  shows "fgets ln 523 (pre @ rest) = Some (ln', pre' @ rest)" and "pre' = [] \<or> last pre' = CHR 0x0A"
proof -
  have l: "length (read_line 522 pre) \<le> length pre" by (rule read_line_length)
  have eq: "ln' = read_line 522 pre @ NUL # drop (Suc (length (read_line 522 pre))) ln"
    "pre' = drop (length (read_line 522 pre)) pre"
    using assms(1,3) by (simp_all add: fgets_def Let_def)
  show "fgets ln 523 (pre @ rest) = Some (ln', pre' @ rest)"
    using assms(1) l by (simp add: fgets_def Let_def read_line_append [OF assms(1,2)] eq)
  show "pre' = [] \<or> last pre' = CHR 0x0A"
  proof (cases "length (read_line 522 pre) < length pre")
    case True
    then show ?thesis using assms(2) by (simp add: eq last_drop)
  next
    case False
    then show ?thesis by (simp add: eq)
  qed
qed

lemma read_loop_append:
  "pre = [] \<or> last pre = CHR 0x0A \<Longrightarrow>
   read_loop start end st (pre @ rest) =
     (case read_loop start end st pre of Inl e \<Rightarrow> Inl e | Inr st' \<Rightarrow> read_loop start end st' rest)"
proof (induction start "end" st pre rule: read_loop.induct)
  case (1 start "end" st pre)
  show ?case
  proof (cases "pre = []")
    case True
    then show ?thesis by (simp add: read_loop.simps [of _ _ _ "[]"] fgets_Nil)
  next
    case False
    then have lst: "last pre = CHR 0x0A" using "1.prems" by simp
    obtain ln' pre' where fg: "fgets (line st) 523 pre = Some (ln', pre')"
      using False by (simp add: fgets_def Let_def)
    note fa = fgets_append [OF False lst fg]
    show ?thesis
    proof (cases "read_body start end (st\<lparr>line := ln'\<rparr>)")
      case (Inl e)
      then show ?thesis
        by (simp add: read_loop.simps [of _ _ st "pre @ rest"] read_loop.simps [of _ _ st pre] fg fa(1))
    next
      case (Inr st1)
      from "1.IH" [OF fg refl Inr fa(2)] Inr show ?thesis
        by (simp add: read_loop.simps [of _ _ st "pre @ rest"] read_loop.simps [of _ _ st pre] fg fa(1))
    qed
  qed
qed

lemma fgets_has_NUL: "fgets ln n s = Some (ln', rest) \<Longrightarrow> NUL \<in> set ln'"
  by (auto simp: fgets_def Let_def split: if_splits)

lemma next_line_fgets: "rest \<noteq> [] \<Longrightarrow> \<exists>rest'. fgets (line st) 523 rest = Some (next_line st rest, rest')"
  by (simp add: next_line_def fgets_def Let_def)

lemma read_loop_out_of_range:
  assumes "rest \<noteq> []"
    and "sscanf_header (cstr (next_line st rest) 0) = Some (chunk_len, chunk_addr, 0)"
    and "9 < strlen (next_line st rest) - 1"
    and "sscanf_x 2 (cstr (next_line st rest) 9) = Some byte"
    and "0 < chunk_len"
    and "chunk_addr + offset st < start \<or> end < chunk_addr + offset st + chunk_len"
  shows "read_loop start end st rest =
     Inl (if chunk_addr + offset st < start then AddrRange chunk_addr (line_no st + 1)
          else AddrLenRange chunk_addr chunk_len (line_no st + 1), buf st)"
proof -
  obtain rest' where fg: "fgets (line st) 523 rest = Some (next_line st rest, rest')"
    using next_line_fgets [OF assms(1)] by blast
  define st1 where "st1 = st\<lparr>line := next_line st rest, line_no := line_no st + 1\<rparr>"
  have nul: "NUL \<in> set (line st1)" using fgets_has_NUL [OF fg] by (simp add: st1_def)
  have sc: "strip_cr st1 = st1" by (rule strip_cr_id [OF nul])
  have l1: "line st1 = next_line st rest" "offset st1 = offset st" "buf st1 = buf st"
    "line_no st1 = line_no st + 1" by (simp_all add: st1_def)
  have dl: "data_loop start end chunk_len chunk_addr 0 9 st1 =
     Inl (if chunk_addr + offset st1 < start then AddrRange chunk_addr (line_no st1)
          else AddrLenRange chunk_addr chunk_len (line_no st1), buf st1)"
    by (rule data_loop_range [where byte = byte]) (use assms in \<open>simp_all add: l1\<close>)
  have "read_body start end (st\<lparr>line := next_line st rest\<rparr>) =
     Inl (if chunk_addr + offset st < start then AddrRange chunk_addr (line_no st + 1)
          else AddrLenRange chunk_addr chunk_len (line_no st + 1), buf st)"
    using dl assms(2)
    by (simp add: read_body_def Let_def st1_def [symmetric] sc l1 read_esa_def read_ela_def)
  then show ?thesis
    by (subst read_loop.simps) (simp add: fg)
qed

text \<open>
  What the two checks of lines 106 to 115 reject: when the lines before are read without
  an error, and the next line is a data record (type 00) whose length is not 0 and whose
  first pair of data digits is read, and the address of the record plus the offset is
  below \<open>start\<close>, or that sum plus the length of the record is above \<open>end\<close>, the sums
  being the 32-bit sums that the code compares, then \<open>ihex_read\<close> fails with the
  message about the address, or about the address and the length, and the buffer it
  frees is the buffer as the lines before left it: no byte of the record is stored.
\<close>

lemma range_checks_reject:
  assumes "pre = [] \<or> last pre = CHR 0x0A"
    and "read_loop start end
           \<lparr>line = replicate 523 NUL, line_no = 0, greatest_addr = 0, offset = 0, buf = b\<rparr> pre = Inr st"
    and "rest \<noteq> []"
    and "sscanf_header (cstr (next_line st rest) 0) = Some (chunk_len, chunk_addr, 0)"
    and "9 < strlen (next_line st rest) - 1"
    and "sscanf_x 2 (cstr (next_line st rest) 9) = Some byte"
    and "0 < chunk_len"
    and "chunk_addr + offset st < start \<or> end < chunk_addr + offset st + chunk_len"
  shows "ihex_read (pre @ rest) b start end =
     Inl (if chunk_addr + offset st < start then AddrRange chunk_addr (line_no st + 1)
          else AddrLenRange chunk_addr chunk_len (line_no st + 1), buf st)"
  unfolding ihex_read_def read_loop_append [OF assms(1)] assms(2)
  by (simp add: read_loop_out_of_range [OF assms(3-8)])

lemma range_checks_reject_example:
  "sscanf_header (cstr (next_line
       \<lparr>line = replicate 523 NUL, line_no = 0, greatest_addr = 0, offset = 0, buf = mem_of []\<rparr>
       '':0300000011223397\<newline>'') 0) = Some (3, 0, 0)
   \<and> sscanf_x 2 (cstr (next_line
       \<lparr>line = replicate 523 NUL, line_no = 0, greatest_addr = 0, offset = 0, buf = mem_of []\<rparr>
       '':0300000011223397\<newline>'') 9) = Some 0x11
   \<and> ihex_read '':0300000011223397\<newline>'' (mem_of []) 0 2 = Inl (AddrLenRange 0 3 1, mem_of [])"
proof -
  define st where
    "st = \<lparr>line = replicate 523 NUL, line_no = 0, greatest_addr = 0, offset = 0, buf = mem_of []\<rparr>"
  have 1: "([] :: string) = [] \<or> last ([] :: string) = CHR 0x0A" by simp
  have 2: "read_loop 0 2
      \<lparr>line = replicate 523 NUL, line_no = 0, greatest_addr = 0, offset = 0, buf = mem_of []\<rparr> [] = Inr st"
    by (simp add: read_loop.simps [of _ _ _ "[]"] fgets_Nil st_def)
  have 3: "'':0300000011223397\<newline>'' \<noteq> []" by simp
  have 4: "sscanf_header (cstr (next_line st '':0300000011223397\<newline>'') 0) = Some (3, 0, 0)"
    unfolding st_def by code_simp
  have 5: "9 < strlen (next_line st '':0300000011223397\<newline>'') - 1"
    unfolding st_def by code_simp
  have 6: "sscanf_x 2 (cstr (next_line st '':0300000011223397\<newline>'') 9) = Some 0x11"
    unfolding st_def by code_simp
  have 7: "(0 :: u32) < 3" by simp
  have 8: "0 + offset st < (0 :: u32) \<or> (2 :: u32) < 0 + offset st + 3" by (simp add: st_def)
  from range_checks_reject [OF 1 2 3 4 5 6 7 8]
  have "ihex_read '':0300000011223397\<newline>'' (mem_of []) 0 2 = Inl (AddrLenRange 0 3 1, mem_of [])"
    by (simp add: st_def)
  then show ?thesis using 4 6 by (simp only: st_def) 
qed

text \<open>
  C4 at a record in the last page: after the record of type 04 with the value FFFF the
  offset is 0xFFFF0000, and the Data record of two bytes at the address FFFF lies at
  0xFFFFFFFF. Its address plus its length is above \<open>end\<close> = 0x100. The sum that line 111
  compares with \<open>end\<close> has wrapped around to 1: the call does not fail, it stores the
  two bytes, the first at the index 0xFFFFFFFF, and returns 1.
\<close>

theorem out_of_range_accepted:
  "map_sum fst offset
     (read_loop 0 0x100
        \<lparr>line = replicate 523 NUL, line_no = 0, greatest_addr = 0, offset = 0, buf = mem_of []\<rparr>
        '':02000004FFFFFC\<newline>'') = Inr 0xFFFF0000
   \<and> sscanf_header '':02FFFF00AABB9B\<newline>'' = Some (2, 0xFFFF, 0)
   \<and> sscanf_x 2 (drop 9 '':02FFFF00AABB9B\<newline>'') = Some 0xAA
   \<and> unat (0x100 :: u32) < unat (0xFFFF :: u32) + unat (0xFFFF0000 :: u32) + unat (2 :: u32)
   \<and> \<not> isl (ihex_read '':02000004FFFFFC\<newline>:02FFFF00AABB9B\<newline>'' (mem_of []) 0 0x100)
   \<and> outcome_at (ihex_read '':02000004FFFFFC\<newline>:02FFFF00AABB9B\<newline>'' (mem_of []) 0 0x100)
        [0xFFFFFFFF, 0] = Inr (1, [0xAA, 0xBB])"
proof -
  have 1: "map_sum fst offset
     (read_loop 0 0x100
        \<lparr>line = replicate 523 NUL, line_no = 0, greatest_addr = 0, offset = 0, buf = mem_of []\<rparr>
        '':02000004FFFFFC\<newline>'') = Inr 0xFFFF0000"
    by code_simp
  have 2: "sscanf_header '':02FFFF00AABB9B\<newline>'' = Some (2, 0xFFFF, 0)"
    by code_simp
  have 3: "sscanf_x 2 (drop 9 '':02FFFF00AABB9B\<newline>'') = Some 0xAA"
    by code_simp
  have 4: "unat (0x100 :: u32) < unat (0xFFFF :: u32) + unat (0xFFFF0000 :: u32) + unat (2 :: u32)"
    by simp
  have 5: "\<not> isl (ihex_read '':02000004FFFFFC\<newline>:02FFFF00AABB9B\<newline>'' (mem_of []) 0 0x100)"
    by code_simp
  have 6: "outcome_at (ihex_read '':02000004FFFFFC\<newline>:02FFFF00AABB9B\<newline>'' (mem_of []) 0 0x100)
        [0xFFFFFFFF, 0] = Inr (1, [0xAA, 0xBB])"
    by code_simp
  show ?thesis by (intro conjI 1 2 3 4 5 6)
qed

subsection \<open>The value returned\<close>

lemma unat_hexval_less: "xdigits ds \<Longrightarrow> unat (hexval ds) < 16 ^ length ds"
proof (induction ds rule: rev_induct)
  case Nil
  then show ?case by (simp add: hexval_def)
next
  case (snoc c ds)
  then obtain d where d: "xdigit c = Some d" and xs: "xdigits ds"
    by (auto simp: xdigits_def)
  have d16: "d < 16" using d by (rule xdigit_less)
  have ih: "unat (hexval ds) < 16 ^ length ds" using snoc.IH xs by simp
  have "unat (hexval ds * 16 + of_nat d) \<le> unat (hexval ds * 16) + unat (of_nat d :: u32)"
    by (simp only: unat_word_ariths(1) mod_less_eq_dividend)
  also have "unat (hexval ds * 16) \<le> unat (hexval ds) * 16"
    using mod_less_eq_dividend [of "unat (hexval ds) * 16" "2 ^ 32"]
    by (simp add: unat_word_ariths(2))
  also have "unat (of_nat d :: u32) \<le> d"
    by (metis unat_of_nat mod_less_eq_dividend)
  finally have "unat (hexval ds * 16 + of_nat d) \<le> unat (hexval ds) * 16 + d" by simp
  also have "\<dots> < 16 ^ length ds * 16" using ih d16 by arith
  finally show ?case by (simp add: hexval_snoc [OF d])
qed

lemma field_vals_less:
  assumes "wf_line h"
  shows "len_val h < 256" "addr_val h < 65536" "ext_val h < 65536"
proof -
  show "len_val h < 256"
    using unat_hexval_less [of "f_len h"] assms by (simp add: wf_line_def len_val_def)
  show "addr_val h < 65536"
    using unat_hexval_less [of "f_addr h"] assms by (simp add: wf_line_def addr_val_def)
  have x: "xdigits (take 4 (f_data h))"
    using assms by (auto simp: wf_line_def xdigits_def list_all_iff dest: in_set_takeD)
  have "(16 :: nat) ^ length (take 4 (f_data h)) \<le> 16 ^ 4"
    by (rule power_increasing) simp_all
  then show "ext_val h < 65536"
    using unat_hexval_less [OF x] by (simp add: ext_val_def)
qed

lemma type_val_eq: "type_val h = unat k \<longleftrightarrow> hexval (f_type h) = (k :: u32)"
  by (simp add: type_val_def word_unat_eq_iff)

lemma type_val_simps:
  "type_val h = 0 \<longleftrightarrow> hexval (f_type h) = 0"
  "type_val h = 2 \<longleftrightarrow> hexval (f_type h) = 2"
  "type_val h = 4 \<longleftrightarrow> hexval (f_type h) = 4"
  using type_val_eq [of h 0] type_val_eq [of h 2] type_val_eq [of h 4] by simp_all

lemma len_val_pos: "0 < len_val h \<longleftrightarrow> hexval (f_len h) \<noteq> 0"
  by (simp add: len_val_def unat_gt_0)

lemma line_effect_tracker:
  assumes "line_effect start end h st = Inr st1"
  shows "offset st1 = (if hexval (f_type h) = 2 then hexval (take 4 (f_data h)) * 16
                       else if hexval (f_type h) = 4 then hexval (take 4 (f_data h)) * 65536
                       else offset st)"
    and "greatest_addr st1 =
           (if hexval (f_type h) = 0 \<and> hexval (f_len h) \<noteq> 0
            then max (greatest_addr st) (hexval (f_addr h) + offset st + hexval (f_len h))
            else greatest_addr st)"
  using assms by (auto simp: line_effect_def Let_def split: if_splits)

lemma unat_ext_times:
  assumes "unat (x :: u32) < 65536"
  shows "unat (x * 16) = unat x * 16" "unat (x * 65536) = unat x * 65536"
proof -
  have "unat x * 16 < 2 ^ 32" "unat x * 65536 < 2 ^ 32" using assms by simp_all
  then show "unat (x * 16) = unat x * 16" "unat (x * 65536) = unat x * 65536"
    by (simp_all add: unat_word_ariths(2))
qed

lemma unat_sum3:
  assumes "unat (a :: u32) + unat (b :: u32) + unat (c :: u32) < 2 ^ 32"
  shows "unat (a + b + c) = unat a + unat b + unat c"
proof -
  have "unat (a + b) = unat a + unat b"
    using assms by (simp add: unat_word_ariths(1))
  then show ?thesis
    using assms by (simp add: unat_word_ariths(1))
qed

lemma unat_max: "unat (max (a :: u32) b) = max (unat a) (unat b)"
  by (simp add: max_def word_le_nat_alt)

lemma run_lines_sums:
  assumes "list_all wf_line hs"
    and "run_lines start end hs st = Inr st'"
    and "list_all (\<lambda>s. s < 2 ^ 32) (data_sums (unat (offset st)) (filter has_bytes hs))"
  shows "unat (greatest_addr st') =
           fold max (data_sums (unat (offset st)) (filter has_bytes hs)) (unat (greatest_addr st))"
  using assms
proof (induction hs arbitrary: st)
  case Nil
  then show ?case by simp
next
  case (Cons h hs)
  define s1 where "s1 = st\<lparr>line := line_text h @ NUL # drop (Suc (length (line_text h))) (line st)\<rparr>"
  have s1: "offset s1 = offset st" "greatest_addr s1 = greatest_addr st" by (simp_all add: s1_def)
  obtain st1 where le: "line_effect start end h s1 = Inr st1"
    and rl: "run_lines start end hs st1 = Inr st'"
    using Cons.prems(2) by (cases "line_effect start end h s1") (simp_all add: s1_def)
  note tr = line_effect_tracker [OF le, unfolded s1]
  have wf: "wf_line h" and wfs: "list_all wf_line hs" using Cons.prems(1) by simp_all
  note fv = field_vals_less [OF wf]
  have ext: "unat (hexval (take 4 (f_data h))) < 65536" using fv(3) by (simp add: ext_val_def)
  note ih = Cons.IH [OF wfs rl]
  consider (seg) "type_val h = 2" | (lin) "type_val h = 4"
    | (empty) "type_val h = 0" "len_val h = 0" | (data) "type_val h = 0" "0 < len_val h"
    | (other) "type_val h \<noteq> 2" "type_val h \<noteq> 4" "type_val h \<noteq> 0"
    by fastforce
  then show ?case
  proof cases
    case seg
    then have t: "hexval (f_type h) = 2" by (simp add: type_val_simps)
    have o1: "unat (offset st1) = ext_val h * 16"
      using tr(1) t unat_ext_times(1) [OF ext] by (simp add: ext_val_def)
    have g1: "greatest_addr st1 = greatest_addr st" using tr(2) t by simp
    have hb: "has_bytes h" using seg by (simp add: has_bytes_def)
    show ?thesis
      using ih Cons.prems(3) hb seg by (simp add: o1 g1)
  next
    case lin
    then have t: "hexval (f_type h) = 4" by (simp add: type_val_simps)
    have o1: "unat (offset st1) = ext_val h * 65536"
      using tr(1) t unat_ext_times(2) [OF ext] by (simp add: ext_val_def)
    have g1: "greatest_addr st1 = greatest_addr st" using tr(2) t by simp
    have hb: "has_bytes h" using lin by (simp add: has_bytes_def)
    show ?thesis
      using ih Cons.prems(3) hb lin by (simp add: o1 g1)
  next
    case empty
    then have t: "hexval (f_type h) = 0" and l: "hexval (f_len h) = 0"
      using len_val_pos [of h] by (simp_all add: type_val_simps)
    have o1: "offset st1 = offset st" using tr(1) t by simp
    have g1: "greatest_addr st1 = greatest_addr st" using tr(2) l by simp
    have hb: "\<not> has_bytes h" using empty by (simp add: has_bytes_def)
    show ?thesis
      using ih Cons.prems(3) hb by (simp add: o1 g1)
  next
    case data
    then have t: "hexval (f_type h) = 0" and l: "hexval (f_len h) \<noteq> 0"
      using len_val_pos [of h] by (simp_all add: type_val_simps)
    have o1: "offset st1 = offset st" using tr(1) t by simp
    have g1: "greatest_addr st1 =
        max (greatest_addr st) (hexval (f_addr h) + offset st + hexval (f_len h))"
      using tr(2) t l by simp
    have hb: "has_bytes h" using data by (simp add: has_bytes_def)
    have ds: "data_sums (unat (offset st)) (filter has_bytes (h # hs)) =
        (addr_val h + unat (offset st) + len_val h)
          # data_sums (unat (offset st)) (filter has_bytes hs)"
      using hb data by simp
    have lt: "addr_val h + unat (offset st) + len_val h < 2 ^ 32"
      and rest: "list_all (\<lambda>s. s < 2 ^ 32) (data_sums (unat (offset st)) (filter has_bytes hs))"
      using Cons.prems(3) unfolding ds by simp_all
    have "unat (hexval (f_addr h) + offset st + hexval (f_len h)) =
        addr_val h + unat (offset st) + len_val h"
      using unat_sum3 [of "hexval (f_addr h)" "offset st" "hexval (f_len h)"] lt
      by (simp add: addr_val_def len_val_def)
    then have g2: "unat (greatest_addr st1) =
        max (addr_val h + unat (offset st) + len_val h) (unat (greatest_addr st))"
      by (simp add: g1 unat_max max.commute)
    show ?thesis
      using ih rest unfolding ds by (simp add: o1 g2)
  next
    case other
    then have t: "hexval (f_type h) \<noteq> 2" "hexval (f_type h) \<noteq> 4" "hexval (f_type h) \<noteq> 0"
      by (simp_all add: type_val_simps)
    have o1: "offset st1 = offset st" using tr(1) t by simp
    have g1: "greatest_addr st1 = greatest_addr st" using tr(2) t by simp
    have hb: "has_bytes h" using other by (simp add: has_bytes_def)
    show ?thesis
      using ih Cons.prems(3) hb other by (simp add: o1 g1)
  qed
qed

text \<open>
  C7, as the specification states it: the value returned is the greatest sum of address,
  offset and length over all the Data records, minus \<open>start\<close>. A Data record of length
  0 is read without an error and is not taken up: for the one record
  \<open>:00100000F0\<close> and the window from 0 to 0x2000 the sum is 0x1000 and the value
  returned is 0.
\<close>

theorem returned_value_counterexample:
  "list_all wf_line [HexLine ''00'' ''1000'' ''00'' [] ''F0'']
   \<and> list_all ext_ok [HexLine ''00'' ''1000'' ''00'' [] ''F0'']
   \<and> concat (map line_text [HexLine ''00'' ''1000'' ''00'' [] ''F0'']) = '':00100000F0\<newline>''
   \<and> data_sums 0 [HexLine ''00'' ''1000'' ''00'' [] ''F0''] = [0x1000]
   \<and> outcome (ihex_read '':00100000F0\<newline>'' (mem_of []) 0 0x2000) 0 = Inr (0, [])
   \<and> sint (of_nat (fold max (data_sums 0 [HexLine ''00'' ''1000'' ''00'' [] ''F0'']) 0) - 0 :: u32)
       = 0x1000"
proof -
  have 1: "list_all wf_line [HexLine ''00'' ''1000'' ''00'' [] ''F0'']" by code_simp
  have 2: "list_all ext_ok [HexLine ''00'' ''1000'' ''00'' [] ''F0'']" by code_simp
  have 3: "concat (map line_text [HexLine ''00'' ''1000'' ''00'' [] ''F0'']) = '':00100000F0\<newline>''"
    by (simp add: line_text_def)
  have t: "type_val (HexLine ''00'' ''1000'' ''00'' [] ''F0'') = 0"
    by (simp add: type_val_def hexval_def xdigit_def)
  have a: "addr_val (HexLine ''00'' ''1000'' ''00'' [] ''F0'') = 0x1000"
    by (simp add: addr_val_def hexval_def xdigit_def)
  have l: "len_val (HexLine ''00'' ''1000'' ''00'' [] ''F0'') = 0"
    by (simp add: len_val_def hexval_def xdigit_def)
  have 4: "data_sums 0 [HexLine ''00'' ''1000'' ''00'' [] ''F0''] = [0x1000]"
    by (simp add: t a l)
  have 5: "outcome (ihex_read '':00100000F0\<newline>'' (mem_of []) 0 0x2000) 0 = Inr (0, [])"
    by code_simp
  have 6: "sint (of_nat (fold max (data_sums 0 [HexLine ''00'' ''1000'' ''00'' [] ''F0'']) 0) - 0 :: u32)
       = 0x1000"
    unfolding 4 by simp
  show ?thesis by (intro conjI 1 2 3 4 5 6)
qed

text \<open>
  C7, amended: for a text made of records \<open>:LLAAAATT\<close>, \<open>LL\<close> data bytes, a checksum
  and a newline, all in hexadecimal digits, in which every record of type 02 or 04 has
  at least two data bytes, when \<open>ihex_read\<close> returns without an error, and no sum of
  address, offset and length is above \<open>2 ^ 32 - 1\<close>, the value returned is the greatest
  of these sums over the Data records that have at least one data byte, or 0 when
  there is no such record, minus \<open>start\<close>, as an \<open>int\<close>.
\<close>

theorem returned_value:
  assumes "list_all wf_line hs" and "list_all ext_ok hs"
    and "list_all (\<lambda>s. s < 2 ^ 32) (data_sums 0 (filter has_bytes hs))"
    and "ihex_read (concat (map line_text hs)) b start end = Inr (n, m)"
  shows "n = sint (of_nat (fold max (data_sums 0 (filter has_bytes hs)) 0) - start :: u32)
       \<and> (data_sums 0 (filter has_bytes hs) = [] \<longrightarrow> n = sint (0 - start))"
proof -
  define st0 where
    "st0 = \<lparr>line = replicate 523 NUL, line_no = 0, greatest_addr = 0, offset = 0, buf = b\<rparr>"
  obtain st' where rl: "read_loop start end st0 (concat (map line_text hs)) = Inr st'"
    and n: "n = sint (greatest_addr st' - start)"
    using assms(4) by (auto simp: ihex_read_def st0_def split: sum.splits)
  have run: "run_lines start end hs st0 = Inr st'"
    using rl by (simp add: read_loop_lines [OF assms(1,2)])
  have o: "unat (offset st0) = 0" "unat (greatest_addr st0) = 0" by (simp_all add: st0_def)
  from run_lines_sums [OF assms(1) run] assms(3)
  have "unat (greatest_addr st') = fold max (data_sums 0 (filter has_bytes hs)) 0"
    by (simp add: o)
  moreover have "of_nat (unat (greatest_addr st')) = greatest_addr st'" by simp
  ultimately have "greatest_addr st' = of_nat (fold max (data_sums 0 (filter has_bytes hs)) 0)"
    by simp
  then show ?thesis using n by auto
qed

theorem returned_value_witness:
  "list_all wf_line
     [HexLine ''02'' ''0000'' ''04'' ''0001'' ''F9'', HexLine ''00'' ''0010'' ''00'' [] ''F0'',
      HexLine ''03'' ''0000'' ''00'' ''112233'' ''97'', HexLine ''00'' ''0000'' ''01'' [] ''FF'']
   \<and> list_all ext_ok
     [HexLine ''02'' ''0000'' ''04'' ''0001'' ''F9'', HexLine ''00'' ''0010'' ''00'' [] ''F0'',
      HexLine ''03'' ''0000'' ''00'' ''112233'' ''97'', HexLine ''00'' ''0000'' ''01'' [] ''FF'']
   \<and> data_sums 0 (filter has_bytes
     [HexLine ''02'' ''0000'' ''04'' ''0001'' ''F9'', HexLine ''00'' ''0010'' ''00'' [] ''F0'',
      HexLine ''03'' ''0000'' ''00'' ''112233'' ''97'', HexLine ''00'' ''0000'' ''01'' [] ''FF''])
       = [0x10003]
   \<and> \<not> isl (ihex_read (concat (map line_text
     [HexLine ''02'' ''0000'' ''04'' ''0001'' ''F9'', HexLine ''00'' ''0010'' ''00'' [] ''F0'',
      HexLine ''03'' ''0000'' ''00'' ''112233'' ''97'', HexLine ''00'' ''0000'' ''01'' [] ''FF'']))
        (mem_of []) 0x10000 0x10003)
   \<and> fst (projr (ihex_read (concat (map line_text
     [HexLine ''02'' ''0000'' ''04'' ''0001'' ''F9'', HexLine ''00'' ''0010'' ''00'' [] ''F0'',
      HexLine ''03'' ''0000'' ''00'' ''112233'' ''97'', HexLine ''00'' ''0000'' ''01'' [] ''FF'']))
        (mem_of []) 0x10000 0x10003)) = 3
   \<and> data_sums 0 (filter has_bytes [HexLine ''00'' ''0000'' ''01'' [] ''FF'']) = []
   \<and> \<not> isl (ihex_read (concat (map line_text [HexLine ''00'' ''0000'' ''01'' [] ''FF'']))
        (mem_of []) 5 8)
   \<and> fst (projr (ihex_read (concat (map line_text [HexLine ''00'' ''0000'' ''01'' [] ''FF'']))
        (mem_of []) 5 8)) = - 5"
proof -
  define ela where "ela = HexLine ''02'' ''0000'' ''04'' ''0001'' ''F9''"
  define emp where "emp = HexLine ''00'' ''0010'' ''00'' [] ''F0''"
  define dat where "dat = HexLine ''03'' ''0000'' ''00'' ''112233'' ''97''"
  define eof where "eof = HexLine ''00'' ''0000'' ''01'' [] ''FF''"
  define r1 where "r1 = ihex_read (concat (map line_text [ela, emp, dat, eof])) (mem_of []) 0x10000 0x10003"
  define r2 where "r2 = ihex_read (concat (map line_text [eof])) (mem_of []) 5 8"
  have 1: "list_all wf_line [ela, emp, dat, eof]"
    unfolding ela_def emp_def dat_def eof_def by code_simp
  have 2: "list_all ext_ok [ela, emp, dat, eof]"
    unfolding ela_def emp_def dat_def eof_def by code_simp
  have v: "type_val ela = 4" "ext_val ela = 1"
    "type_val emp = 0" "len_val emp = 0"
    "type_val dat = 0" "len_val dat = 3" "addr_val dat = 0"
    "type_val eof = 1"
    by (simp_all add: ela_def emp_def dat_def eof_def type_val_def ext_val_def len_val_def
        addr_val_def hexval_def xdigit_def)
  have 3: "data_sums 0 (filter has_bytes [ela, emp, dat, eof]) = [0x10003]"
    by (simp add: has_bytes_def v)
  have 4: "\<not> isl r1"
    unfolding r1_def ela_def emp_def dat_def eof_def by code_simp
  have 5: "list_all wf_line [eof]" "list_all ext_ok [eof]"
    using 1 2 by simp_all
  have 6: "data_sums 0 (filter has_bytes [eof]) = []"
    by (simp add: has_bytes_def v)
  have 7: "\<not> isl r2"
    unfolding r2_def eof_def by code_simp
  have b1: "list_all (\<lambda>s. s < 2 ^ 32) (data_sums 0 (filter has_bytes [ela, emp, dat, eof]))"
    unfolding 3 by simp
  have b2: "list_all (\<lambda>s. s < 2 ^ 32) (data_sums 0 (filter has_bytes [eof]))"
    unfolding 6 by simp
  have h1: "ihex_read (concat (map line_text [ela, emp, dat, eof])) (mem_of []) 0x10000 0x10003
      = Inr (fst (projr r1), snd (projr r1))"
    unfolding r1_def [symmetric] using 4 by (cases r1) simp_all
  have h2: "ihex_read (concat (map line_text [eof])) (mem_of []) 5 8
      = Inr (fst (projr r2), snd (projr r2))"
    unfolding r2_def [symmetric] using 7 by (cases r2) simp_all
  have 8: "fst (projr r1) = 3"
    using returned_value [OF 1 2 b1 h1, unfolded 3] by simp
  have 9: "fst (projr r2) = - 5"
    using returned_value [OF 5 b2 h2, unfolded 6] by simp
  show ?thesis
    using 1 2 3 4 6 7 8 9 unfolding r1_def r2_def ela_def emp_def dat_def eof_def by blast
qed

subsection \<open>Reading back what was written\<close>

lemma render_to_line: "render r = line_text (to_line r)"
  by (cases r) (simp_all add: line_text_def)

lemma xdigits_fmt2: "unat x < 256 \<Longrightarrow> xdigits (fmt_X 2 x)" "unat x < 256 \<Longrightarrow> length (fmt_X 2 x) = 2"
  by (simp_all add: fmt_X_2 xdigits_hexn length_hexn del: hexn.simps)

lemma xdigits_fmt4: "unat x < 65536 \<Longrightarrow> xdigits (fmt_X 4 x)" "unat x < 65536 \<Longrightarrow> length (fmt_X 4 x) = 4"
  by (simp_all add: fmt_X_4 xdigits_hexn length_hexn del: hexn.simps)

lemma hexval_fmt2: "unat x < 256 \<Longrightarrow> hexval (fmt_X 2 x) = x"
  using hexval_fmt_X [of x 1] by (simp add: numeral_2_eq_2)

lemma hexval_fmt4: "unat x < 65536 \<Longrightarrow> hexval (fmt_X 4 x) = x"
  using hexval_fmt_X [of x 3] by simp

lemma xdigits_bytes: "xdigits (concat (map (\<lambda>b. fmt_X 2 (ucast b)) (bs :: u8 list)))"
  by (induction bs) (simp_all add: xdigits_fmt2 unat_ucast_8_32_less)

lemma length_bytes: "length (concat (map (\<lambda>b. fmt_X 2 (ucast b)) (bs :: u8 list))) = 2 * length bs"
  by (induction bs) (simp_all add: xdigits_fmt2 unat_ucast_8_32_less)

lemma hexval_literals:
  "hexval ''02'' = 2" "hexval ''0000'' = 0" "hexval ''04'' = 4" "hexval ''00'' = 0" "hexval ''01'' = 1"
  by (simp_all add: hexval_def xdigit_def)

lemma xdigits_literals:
  "xdigits ''02''" "xdigits ''0000''" "xdigits ''04''" "xdigits ''00''" "xdigits ''01''" "xdigits ''FF''"
  by (simp_all add: xdigit_def)

lemma pair_bytes_fmt2:
  assumes "unat x < 256"
  shows "pair_bytes (fmt_X 2 x @ rest) = x # pair_bytes rest"
proof -
  obtain a b where ab: "fmt_X 2 x = [a, b]"
    using xdigits_fmt2(2) [OF assms] by (cases "fmt_X 2 x"; cases "tl (fmt_X 2 x)") auto
  have "hexval [a, b] = x" using hexval_fmt2 [OF assms] by (simp add: ab)
  then show ?thesis by (simp add: ab)
qed

lemma ucast_ucast_8: "ucast (ucast (b :: u8) :: u32) = b"
  by (rule bit_word_eqI) (auto simp: bit_simps)

lemma pair_bytes_bytes:
  "pair_bytes (concat (map (\<lambda>b. fmt_X 2 (ucast b)) bs)) = map ucast (bs :: u8 list)"
  by (induction bs) (simp_all add: pair_bytes_fmt2 unat_ucast_8_32_less)

lemma wf_to_line: "rec_ok r \<Longrightarrow> wf_line (to_line r) \<and> ext_ok (to_line r)"
proof (cases r)
  case (Ela p c)
  assume "rec_ok r"
  then show ?thesis
    by (simp add: Ela wf_line_def ext_ok_def hexval_literals xdigits_fmt4 xdigits_fmt2
        unat_ucast_8_32_less xdigit_def)
next
  case (Data n cs bs c)
  assume "rec_ok r"
  then have n: "unat n < 256" "length bs = unat n" by (simp_all add: Data)
  have m: "unat (cs AND 0xffff) < 65536" using and_ffff_le [of cs] by simp
  show ?thesis
    using n m
    by (simp add: Data wf_line_def ext_ok_def hexval_literals xdigits_fmt4 xdigits_fmt2
        unat_ucast_8_32_less xdigit_def xdigits_bytes length_bytes hexval_fmt2)
next
  case Eof
  then show ?thesis
    by (simp add: wf_line_def ext_ok_def hexval_literals xdigit_def)
qed

lemma unat_of_nat_u32: "j < 2 ^ 32 \<Longrightarrow> unat (of_nat j :: u32) = j"
  by (simp add: unat_of_nat)

lemma word_eq_add_of_nat:
  assumes "j < 2 ^ 32"
  shows "(x = base + (of_nat j :: u32)) = (unat (x - base) = j)"
proof
  assume "x = base + of_nat j"
  then have "x - base = of_nat j" by simp
  then show "unat (x - base) = j" using assms by (simp add: unat_of_nat_u32)
next
  assume "unat (x - base) = j"
  then have "of_nat (unat (x - base)) = (of_nat j :: u32)" by simp
  then have "x - base = of_nat j" by simp
  then show "x = base + of_nat j" by (simp add: algebra_simps)
qed

lemma store_bytes_apply:
  "j + length bs \<le> 2 ^ 32 \<Longrightarrow>
   store_bytes m base j bs x =
     (if j \<le> unat (x - base) \<and> unat (x - base) < j + length bs
      then ucast (bs ! (unat (x - base) - j)) else m x)"
proof (induction bs arbitrary: m j)
  case Nil
  then show ?case by auto
next
  case (Cons b bs)
  have j: "j < 2 ^ 32" using Cons.prems by simp
  have ih: "store_bytes (m(base + of_nat j := ucast b)) base (Suc j) bs x =
     (if Suc j \<le> unat (x - base) \<and> unat (x - base) < Suc j + length bs
      then ucast (bs ! (unat (x - base) - Suc j)) else (m(base + of_nat j := ucast b)) x)"
    by (rule Cons.IH) (use Cons.prems in simp)
  show ?case
  proof (cases "unat (x - base) = j")
    case True
    have xe: "x = base + of_nat j" using True word_eq_add_of_nat [OF j] by simp
    have "store_bytes m base j (b # bs) x = (m(base + of_nat j := ucast b)) x"
      using True by (simp add: ih)
    also have "\<dots> = ucast b" by (simp add: xe)
    finally show ?thesis using True by simp
  next
    case False
    then have ne: "x \<noteq> base + of_nat j" using word_eq_add_of_nat [OF j] by simp
    show ?thesis
    proof (cases "Suc j \<le> unat (x - base) \<and> unat (x - base) < Suc j + length bs")
      case True
      then have "unat (x - base) - j = Suc (unat (x - base) - Suc j)" by arith
      then show ?thesis using True by (simp add: ih)
    next
      case F2: False
      then have c: "\<not> (j \<le> unat (x - base) \<and> unat (x - base) < j + length (b # bs))"
        using False by auto
      have l: "store_bytes m base j (b # bs) x = m x"
        using F2 ne by (auto simp: ih)
      show ?thesis by (simp only: l c if_False)
    qed
  qed
qed

lemma nth_word_upt: "k < unat b - unat a \<Longrightarrow> word_upt a b ! k = of_nat (unat a + k)"
  by (simp add: word_upt_def)

lemma in_window:
  assumes "unat base + n \<le> 2 ^ 32" 
  shows "(unat ((x :: u32) - base) < n) = (unat base \<le> unat x \<and> unat x < unat base + n)"
proof (cases "base \<le> x")
  case True
  then have "unat (x - base) = unat x - unat base" by (simp add: unat_sub)
  then show ?thesis using True by (auto simp: word_le_nat_alt)
next
  case False
  then have lt: "unat x < unat base" by (simp add: word_le_nat_alt)
  have "unat (x - base) = (unat x + 2 ^ 32 - unat base) mod 2 ^ 32"
    by (simp add: unat_sub_if' word_less_nat_alt lt) (use lt in \<open>simp add: unat_sub_if_size word_size\<close>)
  moreover have "unat x + 2 ^ 32 - unat base < 2 ^ 32" using lt by simp
  ultimately have "unat (x - base) = unat x + 2 ^ 32 - unat base" by simp
  then show ?thesis using lt assms by simp
qed

lemma page_split: "((cs :: u32) AND 0xffff) + drop_bit 16 cs * 65536 = cs"
proof -
  have "cs AND 0xffff = take_bit 16 cs" by (simp add: take_bit_eq_mask mask_eq_exp_minus_1)
  moreover have "drop_bit 16 cs * 65536 = push_bit 16 (drop_bit 16 cs)" by (simp add: push_bit_eq_mult)
  ultimately show ?thesis using bits_ident [of 16 cs] by (simp only: add.commute)
qed

lemma line_effect_Ela:
  assumes "unat p < 65536"
  shows "line_effect start end (to_line (Ela p c)) st
       = Inr (st\<lparr>line_no := line_no st + 1, offset := p * 65536\<rparr>)"
proof -
  have "take 4 (fmt_X 4 p) = fmt_X 4 p" using xdigits_fmt4(2) [OF assms] by simp
  then show ?thesis
    by (simp add: line_effect_def Let_def hexval_literals hexval_fmt4 [OF assms])
qed

lemma line_effect_Eof:
  "line_effect start end (to_line Eof) st = Inr (st\<lparr>line_no := line_no st + 1\<rparr>)"
  by (simp add: line_effect_def Let_def hexval_literals)

lemma run_lines_append:
  "run_lines start end (xs @ ys) st =
     (case run_lines start end xs st of Inl e \<Rightarrow> Inl e | Inr st' \<Rightarrow> run_lines start end ys st')"
  by (induction xs arbitrary: st) (simp_all split: sum.splits)

lemma chunk_store:
  assumes "start \<le> chunk_start" "chunk_start < end"
  shows "store_bytes m (chunk_start - start) 0
           (map ucast (map src (word_upt (chunk_start - start)
              (chunk_start + chunk_len_of end chunk_start - start))))
       = (\<lambda>i. if chunk_start - start \<le> i \<and> i < chunk_start + chunk_len_of end chunk_start - start
               then src i else m i)"
proof (rule ext)
  fix x :: u32
  define base where "base = chunk_start - start"
  define n where "n = unat (chunk_len_of end chunk_start)"
  define top where "top = chunk_start + chunk_len_of end chunk_start - start"
  define bs :: "u32 list" where "bs = map ucast (map src (word_upt base top))"
  have ub: "unat base = unat chunk_start - unat start" and ut: "unat top = unat base + n"
    using chunk_range [OF assms] by (simp_all add: base_def top_def n_def)
  have "unat chunk_start + n \<le> unat end"
    using chunk_len_of_bounds(2) [OF assms(2)] by (simp add: n_def)
  moreover have "unat end < 2 ^ 32" using unsigned_less [of "end", where ?'a = nat] by simp
  ultimately have bn: "unat base + n \<le> 2 ^ 32" using ub by simp
  have len: "length bs = n" by (simp add: bs_def length_word_upt ut)
  have n32: "0 + length bs \<le> 2 ^ 32" using bn len by simp
  have win: "(unat (x - base) < n) = (base \<le> x \<and> x < top)"
    using in_window [OF bn, of x] by (simp add: word_le_nat_alt word_less_nat_alt ut)
  have "store_bytes m base 0 bs x =
     (if unat (x - base) < n then ucast (bs ! unat (x - base)) else m x)"
    using store_bytes_apply [OF n32, of m base x] by (simp add: len)
  moreover have "ucast (bs ! unat (x - base)) = src x" if "unat (x - base) < n"
  proof -
    have "word_upt base top ! unat (x - base) = of_nat (unat base + unat (x - base))"
      using that by (intro nth_word_upt) (simp add: ut)
    also have "\<dots> = base + (x - base)" by simp
    finally have "word_upt base top ! unat (x - base) = x" by simp
    then show ?thesis using that by (simp add: bs_def length_word_upt ut ucast_ucast_8)
  qed
  ultimately show "store_bytes m (chunk_start - start) 0
           (map ucast (map src (word_upt (chunk_start - start)
              (chunk_start + chunk_len_of end chunk_start - start)))) x
       = (if chunk_start - start \<le> x \<and> x < chunk_start + chunk_len_of end chunk_start - start
               then src x else m x)"
    unfolding base_def [symmetric] top_def [symmetric] bs_def [symmetric] win [symmetric]
    by simp
qed

lemma chunk_word_order:
  assumes "start \<le> chunk_start" "chunk_start < end"
  shows "chunk_start \<le> chunk_start + chunk_len_of end chunk_start"
    and "chunk_start + chunk_len_of end chunk_start \<le> end"
    and "chunk_start - start \<le> chunk_start + chunk_len_of end chunk_start - start"
    and "chunk_start + chunk_len_of end chunk_start - start \<le> end - start"
    and "chunk_len_of end chunk_start \<noteq> 0"
proof -
  note a = chunk_advance [OF assms(2)] and b = chunk_len_of_bounds(1,2) [OF assms(2)]
    and r = chunk_range [OF assms]
  have se: "unat start \<le> unat chunk_start" "unat chunk_start < unat end"
    using assms by (simp_all add: word_le_nat_alt word_less_nat_alt)
  then have es: "unat (end - start) = unat end - unat start"
    by (simp add: unat_sub word_le_nat_alt)
  show "chunk_start \<le> chunk_start + chunk_len_of end chunk_start"
    using a by (simp add: word_le_nat_alt)
  show "chunk_start + chunk_len_of end chunk_start \<le> end"
    using a b by (simp add: word_le_nat_alt)
  show "chunk_start - start \<le> chunk_start + chunk_len_of end chunk_start - start"
    using r by (simp add: word_le_nat_alt)
  show "chunk_start + chunk_len_of end chunk_start - start \<le> end - start"
    using r b se es by (simp add: word_le_nat_alt)
  show "chunk_len_of end chunk_start \<noteq> 0"
    using b(1) by auto
qed

lemma line_effect_Data:
  assumes "start \<le> chunk_start" "chunk_start < end"
    and "offset st = drop_bit 16 chunk_start * 65536" and "greatest_addr st \<le> chunk_start"
  shows "line_effect start end
           (to_line (Data (chunk_len_of end chunk_start) chunk_start
              (map src (word_upt (chunk_start - start) (chunk_start + chunk_len_of end chunk_start - start)))
              c)) st
       = Inr (st\<lparr>line_no := line_no st + 1,
                 greatest_addr := chunk_start + chunk_len_of end chunk_start,
                 buf := (\<lambda>i. if chunk_start - start \<le> i
                                  \<and> i < chunk_start + chunk_len_of end chunk_start - start
                              then src i else buf st i)\<rparr>)"
proof -
  define n where "n = chunk_len_of end chunk_start"
  note wo = chunk_word_order [OF assms(1,2), folded n_def]
  have n256: "unat n < 256" using chunk_len_of_bounds(3) [OF assms(2)] by (simp add: n_def)
  have m: "unat (chunk_start AND 0xffff) < 65536" using and_ffff_le [of chunk_start] by simp
  have addr: "(chunk_start AND 0xffff) + offset st = chunk_start"
    by (simp add: assms(3) page_split)
  have r1: "\<not> chunk_start < start" using assms(1) by simp
  have r2: "\<not> end < chunk_start + n" using wo(2) by simp
  have mx: "max (greatest_addr st) (chunk_start + n) = chunk_start + n"
    using order_trans [OF assms(4) wo(1)] by (simp add: max_def)
  show ?thesis
    unfolding n_def [symmetric]
    by (simp add: line_effect_def Let_def hexval_literals hexval_fmt2 [OF n256] hexval_fmt4 [OF m]
        addr r1 r2 mx wo(5)
        pair_bytes_bytes [of "map src (word_upt (chunk_start - start) (chunk_start + n - start))",
          unfolded map_map]
        chunk_store [OF assms(1,2), folded n_def, unfolded map_map])
qed

lemma write_loop_rec_ok:
  "start \<le> chunk_start \<Longrightarrow> \<forall>r \<in> set (write_loop src start end cur_ela chunk_start). rec_ok r"
proof (induction src start "end" cur_ela chunk_start rule: write_loop.induct)
  case (1 src start "end" cur_ela chunk_start)
  show ?case
  proof (cases "chunk_start < end")
    case True
    have ih: "\<forall>r \<in> set (write_loop src start end (drop_bit 16 chunk_start)
                 (chunk_start + chunk_len_of end chunk_start)). rec_ok r"
      by (rule "1.IH" [OF True refl refl refl refl]) (rule chunk_next_le [OF "1.prems" True])
    have d: "rec_ok (Data (chunk_len_of end chunk_start) chunk_start
         (map src (word_upt (chunk_start - start) (chunk_start + chunk_len_of end chunk_start - start)))
         (checksum (bytes_at src (chunk_start - start) (chunk_len_of end chunk_start))
            (chunk_len_of end chunk_start) chunk_start 0))"
      using chunk_len_of_bounds(3,4) [OF True] chunk_range [OF "1.prems" True]
      by (simp add: length_word_upt)
    have e: "rec_ok (Ela (drop_bit 16 chunk_start) c)" for c
      using page_le [of chunk_start] by simp
    show ?thesis
      unfolding write_loop_step [OF True] using ih d e by auto
  next
    case False
    then show ?thesis by (simp add: write_loop_done)
  qed
qed

lemma read_written_loop:
  assumes "start \<le> chunk_start" "chunk_start \<le> end"
    and "cur_ela = drop_bit 16 chunk_start \<longrightarrow> offset st = cur_ela * 65536"
    and "greatest_addr st \<le> chunk_start"
  shows "\<exists>st'. run_lines start end (map to_line (write_loop src start end cur_ela chunk_start)) st = Inr st'
           \<and> greatest_addr st' = (if chunk_start < end then end else greatest_addr st)
           \<and> buf st' = (\<lambda>i. if chunk_start - start \<le> i \<and> i < end - start then src i else buf st i)"
  using assms
proof (induction src start "end" cur_ela chunk_start arbitrary: st rule: write_loop.induct)
  case (1 src start "end" cur_ela chunk_start)
  show ?case
  proof (cases "chunk_start < end")
    case False
    then have "chunk_start = end" using "1.prems"(2) by simp
    then show ?thesis using False by (auto simp: write_loop_done fun_eq_iff)
  next
    case True
    define p where "p = drop_bit 16 chunk_start"
    define n where "n = chunk_len_of end chunk_start"
    define nxt where "nxt = chunk_start + n"
    note wo = chunk_word_order [OF "1.prems"(1) True, folded n_def, folded nxt_def]
    define ela where "ela = (if cur_ela \<noteq> p
      then [Ela p (checksum [ucast (HI p), ucast (LO p)] 2 0 4)] else [])"
    define dat where "dat = Data n chunk_start (map src (word_upt (chunk_start - start) (nxt - start)))
         (checksum (bytes_at src (chunk_start - start) n) n chunk_start 0)"
    have wl: "write_loop src start end cur_ela chunk_start = ela @ dat # write_loop src start end p nxt"
      unfolding write_loop_step [OF True] ela_def dat_def p_def n_def nxt_def by simp
    \<comment> \<open>the record of type 04, when there is one\<close>
    obtain sA where sA: "run_lines start end (map to_line ela) st = Inr sA"
      and oA: "offset sA = p * 65536" and gA: "greatest_addr sA = greatest_addr st"
      and bA: "buf sA = buf st"
    proof (cases "cur_ela = p")
      case True
      then have "offset st = p * 65536" using "1.prems"(3) by (simp add: p_def)
      then show ?thesis using that [of st] True by (simp add: ela_def)
    next
      case False
      have "unat p < 65536" using page_le [of chunk_start] by (simp add: p_def)
      from line_effect_Ela [OF this] show ?thesis
        using that False by (simp add: ela_def)
    qed
    \<comment> \<open>the data record\<close>
    define sA' where "sA' = sA\<lparr>line := line_text (to_line dat) @ NUL
                 # drop (Suc (length (line_text (to_line dat)))) (line sA)\<rparr>"
    define sB where "sB = sA'\<lparr>line_no := line_no sA' + 1, greatest_addr := nxt,
                 buf := (\<lambda>i. if chunk_start - start \<le> i \<and> i < nxt - start
                              then src i else buf sA' i)\<rparr>"
    have "line_effect start end (to_line dat) sA' = Inr sB"
      unfolding dat_def sB_def n_def nxt_def
      by (rule line_effect_Data [OF "1.prems"(1) True])
         (use oA gA "1.prems"(4) in \<open>simp_all add: sA'_def p_def\<close>)
    then have sB: "run_lines start end (map to_line (dat # write_loop src start end p nxt)) sA
        = run_lines start end (map to_line (write_loop src start end p nxt)) sB"
      by (simp add: sA'_def)
    have oB: "offset sB = p * 65536" and gB: "greatest_addr sB = nxt"
      and bB: "buf sB = (\<lambda>i. if chunk_start - start \<le> i \<and> i < nxt - start
                              then src i else buf st i)"
    proof -
      have A': "offset sA' = p * 65536" "buf sA' = buf st"
        by (simp_all add: sA'_def oA bA)
      show "offset sB = p * 65536" "greatest_addr sB = nxt"
        "buf sB = (\<lambda>i. if chunk_start - start \<le> i \<and> i < nxt - start then src i else buf st i)"
        by (simp_all add: sB_def A' cong: if_cong)
    qed
    \<comment> \<open>the records after it\<close>
    have "\<exists>st'. run_lines start end (map to_line (write_loop src start end p nxt)) sB = Inr st'
           \<and> greatest_addr st' = (if nxt < end then end else greatest_addr sB)
           \<and> buf st' = (\<lambda>i. if nxt - start \<le> i \<and> i < end - start then src i else buf sB i)"
      unfolding p_def nxt_def n_def
    proof (rule "1.IH" [OF True refl refl refl refl])
      show "start \<le> chunk_start + chunk_len_of end chunk_start"
        by (rule chunk_next_le [OF "1.prems"(1) True])
      show "chunk_start + chunk_len_of end chunk_start \<le> end"
        using wo(2) by (simp add: nxt_def n_def)
      show "drop_bit 16 chunk_start = drop_bit 16 (chunk_start + chunk_len_of end chunk_start) \<longrightarrow>
          offset sB = drop_bit 16 chunk_start * 65536"
        using oB by (simp add: p_def)
      show "greatest_addr sB \<le> chunk_start + chunk_len_of end chunk_start"
        using gB by (simp add: nxt_def n_def)
    qed
    then obtain st' where
      r: "run_lines start end (map to_line (write_loop src start end p nxt)) sB = Inr st'"
      and g: "greatest_addr st' = (if nxt < end then end else greatest_addr sB)"
      and b: "buf st' = (\<lambda>i. if nxt - start \<le> i \<and> i < end - start then src i else buf sB i)"
      by blast
    have run: "run_lines start end (map to_line (write_loop src start end cur_ela chunk_start)) st = Inr st'"
      unfolding wl using sA sB r by (simp add: run_lines_append)
    have g': "greatest_addr st' = end"
      using g gB wo(2) by (auto simp: not_less)
    have b': "buf st' = (\<lambda>i. if chunk_start - start \<le> i \<and> i < end - start then src i else buf st i)"
    proof (rule ext)
      fix i
      show "buf st' i = (if chunk_start - start \<le> i \<and> i < end - start then src i else buf st i)"
        using wo(3,4) unfolding b bB by auto
    qed
    show ?thesis using run g' b' True by simp
  qed
qed

text \<open>
  C1: for every \<open>start\<close> below \<open>end\<close> and every source buffer, \<open>ihex_read\<close> reads the text
  that \<open>ihex_write\<close> wrote for the same \<open>start\<close> and \<open>end\<close> without an error, returns
  \<open>end - start\<close> (as an \<open>int\<close>), and leaves in the destination buffer the \<open>end - start\<close> bytes
  of the source, the bytes after them being as they were.
\<close>

theorem write_then_read:
  assumes "start < end"
  shows "ihex_read (ihex_write src start end) dst start end
       = Inr (sint (end - start), \<lambda>i. if i < end - start then src i else dst i)"
proof -
  define cur_ela :: u32 where "cur_ela = (if end > 65535 then - 1 else 0)"
  define st0 where
    "st0 = \<lparr>line = replicate 523 NUL, line_no = 0, greatest_addr = 0, offset = 0, buf = dst\<rparr>"
  define recs where "recs = write_loop src start end cur_ela start"
  have recs: "ihex_write_records src start end = recs @ [Eof]"
    by (simp add: ihex_write_records_def Let_def recs_def cur_ela_def)
  have ok: "\<forall>r \<in> set (recs @ [Eof]). rec_ok r"
    using write_loop_rec_ok [of start start src "end" cur_ela] by (simp add: recs_def)
  then have "\<forall>r \<in> set (recs @ [Eof]). wf_line (to_line r) \<and> ext_ok (to_line r)"
    using wf_to_line by blast
  then have wf: "list_all wf_line (map to_line (recs @ [Eof]))"
    and ex: "list_all ext_ok (map to_line (recs @ [Eof]))"
    unfolding list_all_iff by (simp_all del: to_line.simps)
  have tx: "ihex_write src start end = concat (map line_text (map to_line (recs @ [Eof])))"
    by (simp add: ihex_write_def recs render_to_line [abs_def] o_def)
  have inv: "cur_ela = drop_bit 16 start \<longrightarrow> offset st0 = cur_ela * 65536"
    using page_not_minus_one [of start] by (auto simp: cur_ela_def st0_def)
  from read_written_loop [OF order_refl less_imp_le [OF assms] inv, of src]
  obtain st' where
    r: "run_lines start end (map to_line recs) st0 = Inr st'"
    and g: "greatest_addr st' = end"
    and b: "buf st' = (\<lambda>i. if start - start \<le> i \<and> i < end - start then src i else buf st0 i)"
    using assms by (auto simp: recs_def st0_def)
  have "read_loop start end st0 (ihex_write src start end)
      = run_lines start end (map to_line (recs @ [Eof])) st0"
    unfolding tx by (rule read_loop_lines [OF wf ex])
  also have "\<dots> = Inr (st'\<lparr>line := line_text (to_line Eof) @ NUL
        # drop (Suc (length (line_text (to_line Eof)))) (line st'), line_no := line_no st' + 1\<rparr>)"
    using r by (simp add: run_lines_append line_effect_Eof del: to_line.simps)
  finally show ?thesis
    using g b by (simp add: ihex_read_def st0_def [symmetric]) (simp add: st0_def cong: if_cong)
qed

theorem write_then_read_witness:
  "(0xFFFE :: u32) < 0x10001
   \<and> outcome (ihex_read (ihex_write (mem_of [0x11, 0x22, 0x33]) 0xFFFE 0x10001) (mem_of []) 0xFFFE 0x10001) 3
       = Inr (3, [0x11, 0x22, 0x33])"
proof -
  have 1: "(0xFFFE :: u32) < 0x10001" by simp
  have 3: "map (\<lambda>i. if i < 3 then mem_of [0x11, 0x22, 0x33] i else mem_of [] i) (word_upt 0 3)
       = [0x11, 0x22, 0x33]"
    by code_simp
  have "outcome (ihex_read (ihex_write (mem_of [0x11, 0x22, 0x33]) 0xFFFE 0x10001) (mem_of []) 0xFFFE 0x10001) 3
       = Inr (3, [0x11, 0x22, 0x33])"
    unfolding write_then_read [OF 1] using 3 by (simp add: outcome_def)
  then show ?thesis using 1 by blast
qed

end
